theory Spec2Isabelle
  imports Main "HOL-Library.Sublist"
begin

section \<open>Text, Unicode tables and Python string primitives\<close>

text \<open>
  A Python \<open>str\<close> is a sequence of Unicode code points; offsets and lengths count code
  points. The labels and keywords of the detector are Chinese, so a text is a list of
  code points, not a list of bytes.
\<close>

type_synonym ustring = "nat list"

definition asc :: "string \<Rightarrow> ustring" where
  \<comment> \<open>an ASCII literal as code points\<close>
  "asc s = map of_char s"

text \<open>
  The detector relies on the Unicode database of the Python runtime: \<open>\d\<close> and
  \<open>int()\<close> (decimal digits and their values), \<open>str.isdigit\<close>, \<open>\s\<close> and
  \<open>str.strip\<close> (white space), \<open>\b\<close> (word characters: alphanumeric or underscore)
  and \<open>str.lower\<close>. These tables are not part of the repository; every function below
  takes them as a parameter.
\<close>

record unicode_db =
  to_decimal :: "nat \<Rightarrow> nat option"
  is_digit :: "nat \<Rightarrow> bool"
  is_space :: "nat \<Rightarrow> bool"
  is_word :: "nat \<Rightarrow> bool"
  to_lower :: "nat \<Rightarrow> ustring"

definition is_decimal :: "unicode_db \<Rightarrow> nat \<Rightarrow> bool" where
  "is_decimal U c = (to_decimal U c \<noteq> None)"

definition ascii_digit :: "nat \<Rightarrow> bool" where
  "ascii_digit c = (48 \<le> c \<and> c \<le> 57)"

definition unicode_ok :: "unicode_db \<Rightarrow> bool" where
  \<comment> \<open>what the proofs use of the real tables: the ASCII digits are decimal digits with
      their usual values, every decimal digit satisfies \<open>str.isdigit\<close>, and a
      newline is not a decimal digit\<close>
  "unicode_ok U =
     ((\<forall>c. ascii_digit c \<longrightarrow> to_decimal U c = Some (c - 48)) \<and>
      (\<forall>c. is_decimal U c \<longrightarrow> is_digit U c) \<and>
      \<not> is_decimal U 10)"

definition basic_db :: unicode_db where
  \<comment> \<open>The tables restricted to Basic Latin and the CJK Unified Ideographs
      (U+4E00 to U+9FFF, all letters); every other code point is left unclassified.
      Used for concrete inputs made of ASCII, ideographs and the punctuation marks
      U+3010, U+3011 and U+FF1A, on which it agrees with the Unicode database.\<close>
  "basic_db =
     \<lparr> to_decimal = (\<lambda>c. if ascii_digit c then Some (c - 48) else None),
       is_digit = ascii_digit,
       is_space = (\<lambda>c. (9 \<le> c \<and> c \<le> 13) \<or> (28 \<le> c \<and> c \<le> 32)),
       is_word = (\<lambda>c. ascii_digit c \<or> (65 \<le> c \<and> c \<le> 90) \<or> c = 95 \<or>
                       (97 \<le> c \<and> c \<le> 122) \<or> (0x4E00 \<le> c \<and> c \<le> 0x9FFF)),
       to_lower = (\<lambda>c. if 65 \<le> c \<and> c \<le> 90 then [c + 32] else [c]) \<rparr>"

definition py_slice :: "'a list \<Rightarrow> int \<Rightarrow> int \<Rightarrow> 'a list" where
  \<comment> \<open>\<open>xs[a:b]\<close>: a negative index counts from the end, every index is clamped\<close>
  "py_slice xs a b =
     (let n = int (length xs);
          a' = (if a < 0 then max 0 (n + a) else min n a);
          b' = (if b < 0 then max 0 (n + b) else min n b)
      in drop (nat a') (take (nat b') xs))"

definition slice :: "'a list \<Rightarrow> nat \<Rightarrow> nat \<Rightarrow> 'a list" where
  \<comment> \<open>\<open>xs[a:b]\<close> for offsets that are not negative\<close>
  "slice xs a b = drop a (take b xs)"

definition strip :: "unicode_db \<Rightarrow> ustring \<Rightarrow> ustring" where
  \<comment> \<open>\<open>str.strip()\<close>\<close>
  "strip U s = rev (dropWhile (is_space U) (rev (dropWhile (is_space U) s)))"

definition str_lower :: "unicode_db \<Rightarrow> ustring \<Rightarrow> ustring" where
  \<comment> \<open>\<open>str.lower()\<close>, character by character\<close>
  "str_lower U s = concat (map (to_lower U) s)"

definition str_isdigit :: "unicode_db \<Rightarrow> ustring \<Rightarrow> bool" where
  \<comment> \<open>\<open>str.isdigit()\<close>: not empty and every character a digit\<close>
  "str_isdigit U s = (s \<noteq> [] \<and> list_all (is_digit U) s)"

fun split_on :: "nat \<Rightarrow> ustring \<Rightarrow> ustring list" where
  \<comment> \<open>\<open>s.split(sep)\<close> for a one-character separator\<close>
  "split_on sep [] = [[]]"
| "split_on sep (c # cs) =
     (if c = sep then [] # split_on sep cs
      else (case split_on sep cs of p # ps \<Rightarrow> (c # p) # ps | [] \<Rightarrow> [[c]]))"

datatype error =
    InvalidTypeId ustring
    \<comment> \<open>\<open>ValueError\<close> raised for a type identifier that is not registered\<close>
  | ThresholdOutOfRange
    \<comment> \<open>\<open>ValueError\<close> raised by \<open>set_confidence_threshold\<close>\<close>
  | InvalidIntLiteral ustring
    \<comment> \<open>\<open>ValueError\<close> raised by \<open>int()\<close>\<close>

fun digits_value :: "unicode_db \<Rightarrow> ustring \<Rightarrow> nat \<Rightarrow> nat option" where
  "digits_value U [] acc = Some acc"
| "digits_value U (c # cs) acc =
     (case to_decimal U c of None \<Rightarrow> None | Some d \<Rightarrow> digits_value U cs (10 * acc + d))"

definition py_int :: "unicode_db \<Rightarrow> ustring \<Rightarrow> error + int" where
  \<comment> \<open>\<open>int(s)\<close> on the strings the validators pass to it: single characters and
      runs of digits. A string that is not a run of decimal digits raises.\<close>
  "py_int U s =
     (if s = [] then Inl (InvalidIntLiteral s)
      else (case digits_value U s 0 of
              None \<Rightarrow> Inl (InvalidIntLiteral s)
            | Some v \<Rightarrow> Inr (int v)))"

section \<open>Regular expressions as Python's \<open>re\<close> module runs them\<close>

datatype citem =
    Chr nat          \<comment> \<open>one character\<close>
  | Rng nat nat      \<comment> \<open>a range \<open>a-b\<close>\<close>
  | Dig              \<comment> \<open>\<open>\d\<close>\<close>
  | Spc              \<comment> \<open>\<open>\s\<close>\<close>

datatype regex =
    Eps
  | Lit ustring                  \<comment> \<open>a literal string\<close>
  | Cls "citem list"             \<comment> \<open>a character class \<open>[...]\<close>\<close>
  | Cat regex regex
  | Alt regex regex              \<comment> \<open>\<open>a|b\<close>, the left branch first\<close>
  | Rep regex nat nat            \<comment> \<open>greedy \<open>r{lo,hi}\<close>\<close>
  | RepInf regex nat             \<comment> \<open>greedy \<open>r{lo,}\<close>, \<open>r*\<close>, \<open>r+\<close> of a one-character \<open>r\<close>\<close>
  | Grp nat regex                \<comment> \<open>capturing group, numbered from 0 in the capture list\<close>
  | NotBehind "citem list"       \<comment> \<open>\<open>(?<!c)\<close> for a one-character class\<close>
  | NotAhead "citem list"        \<comment> \<open>\<open>(?!c)\<close> for a one-character class\<close>
  | WordB                        \<comment> \<open>\<open>\b\<close>\<close>
  | Bol                          \<comment> \<open>\<open>^\<close> without MULTILINE\<close>
  | Eol                          \<comment> \<open>\<open>$\<close> without MULTILINE\<close>

fun seq :: "regex list \<Rightarrow> regex" where
  "seq [] = Eps"
| "seq [r] = r"
| "seq (r # rs) = Cat r (seq rs)"

fun alts :: "regex list \<Rightarrow> regex" where
  "alts [] = Eps"
| "alts [r] = r"
| "alts (r # rs) = Alt r (alts rs)"

definition opt :: "regex \<Rightarrow> regex" where
  "opt r = Rep r 0 1"

text \<open>
  With IGNORECASE, a Unicode pattern matches an ASCII letter in either case, and four
  further letters: U+0130 and U+0131 match \<open>i\<close>, U+017F matches \<open>s\<close>, U+212A matches
  \<open>k\<close>. The characters of the detector's patterns are ASCII or caseless.
\<close>

definition ci_fold :: "nat \<Rightarrow> nat" where
  "ci_fold c =
     (if 65 \<le> c \<and> c \<le> 90 then c + 32
      else if c = 0x130 \<or> c = 0x131 then 105
      else if c = 0x17F then 115
      else if c = 0x212A then 107
      else c)"

definition ci_upper :: "nat \<Rightarrow> nat" where
  "ci_upper c = (if 97 \<le> c \<and> c \<le> 122 then c - 32 else c)"

definition chr_eq :: "bool \<Rightarrow> nat \<Rightarrow> nat \<Rightarrow> bool" where
  \<comment> \<open>does text character \<open>c\<close> match pattern character \<open>k\<close>\<close>
  "chr_eq ic k c = (c = k \<or> (ic \<and> ci_fold c = ci_fold k))"

fun in_item :: "unicode_db \<Rightarrow> bool \<Rightarrow> citem \<Rightarrow> nat \<Rightarrow> bool" where
  "in_item U ic (Chr k) c = chr_eq ic k c"
| "in_item U ic (Rng a b) c =
     ((a \<le> c \<and> c \<le> b) \<or>
      (ic \<and> ((a \<le> ci_fold c \<and> ci_fold c \<le> b) \<or>
             (a \<le> ci_upper (ci_fold c) \<and> ci_upper (ci_fold c) \<le> b))))"
| "in_item U ic Dig c = is_decimal U c"
| "in_item U ic Spc c = is_space U c"

definition in_class :: "unicode_db \<Rightarrow> bool \<Rightarrow> citem list \<Rightarrow> nat \<Rightarrow> bool" where
  "in_class U ic cs c = list_ex (\<lambda>i. in_item U ic i c) cs"

definition lit_at :: "bool \<Rightarrow> ustring \<Rightarrow> ustring \<Rightarrow> nat \<Rightarrow> bool" where
  \<comment> \<open>the literal \<open>s\<close> stands in the text at offset \<open>p\<close>\<close>
  "lit_at ic s t p =
     (p + length s \<le> length t \<and> list_all2 (chr_eq ic) s (take (length s) (drop p t)))"

type_synonym caps = "(nat \<times> nat) option list"

fun rsize :: "nat \<Rightarrow> regex \<Rightarrow> nat" where
  "rsize n (Cat a b) = rsize n a + rsize n b + 1"
| "rsize n (Alt a b) = rsize n a + rsize n b + 1"
| "rsize n (Rep r lo hi) = (rsize n r + 1) * (hi + 1)"
| "rsize n (RepInf r lo) = (rsize n r + 1) * (n + 1) + 1"
| "rsize n (Grp k r) = rsize n r + 1"
| "rsize n r = 1"

text \<open>
  The backtracking matcher. \<open>rx U ic t r p c\<close> lists, in the order in which the
  engine tries them, the ways pattern \<open>r\<close> can match text \<open>t\<close> from offset \<open>p\<close> with
  captures \<open>c\<close>: the end offset and the captures of each. The first entry is the match
  the engine reports. A greedy repetition tries one more round before it tries to stop.
  The registry uses the unbounded repetition only on one-character classes; each round
  then consumes a character, so the length of the text bounds the number of rounds.
\<close>

function rx :: "unicode_db \<Rightarrow> bool \<Rightarrow> ustring \<Rightarrow> regex \<Rightarrow> nat \<Rightarrow> caps \<Rightarrow> (nat \<times> caps) list" where
  "rx U ic t Eps p c = [(p, c)]"
| "rx U ic t (Lit s) p c = (if lit_at ic s t p then [(p + length s, c)] else [])"
| "rx U ic t (Cls cs) p c =
     (if p < length t \<and> in_class U ic cs (t ! p) then [(Suc p, c)] else [])"
| "rx U ic t (Cat r1 r2) p c =
     concat (map (\<lambda>(q, c'). rx U ic t r2 q c') (rx U ic t r1 p c))"
| "rx U ic t (Alt r1 r2) p c = rx U ic t r1 p c @ rx U ic t r2 p c"
| "rx U ic t (Rep r lo hi) p c =
     (if hi = 0 then []
      else concat (map (\<lambda>(q, c'). rx U ic t (Rep r (lo - 1) (hi - 1)) q c') (rx U ic t r p c)))
     @ (if lo = 0 then [(p, c)] else [])"
| "rx U ic t (RepInf r lo) p c = rx U ic t (Rep r lo (length t)) p c"
| "rx U ic t (Grp k r) p c =
     map (\<lambda>(q, c'). (q, c'[k := Some (p, q)])) (rx U ic t r p c)"
| "rx U ic t (NotBehind cs) p c =
     (if 0 < p \<and> p \<le> length t \<and> in_class U ic cs (t ! (p - 1)) then [] else [(p, c)])"
| "rx U ic t (NotAhead cs) p c =
     (if p < length t \<and> in_class U ic cs (t ! p) then [] else [(p, c)])"
| "rx U ic t WordB p c =
     (if (0 < p \<and> p \<le> length t \<and> is_word U (t ! (p - 1))) \<noteq> (p < length t \<and> is_word U (t ! p))
      then [(p, c)] else [])"
| "rx U ic t Bol p c = (if p = 0 then [(p, c)] else [])"
| "rx U ic t Eol p c =
     (if p = length t \<or> (Suc p = length t \<and> t ! p = 10) then [(p, c)] else [])"
  by pat_completeness auto
termination
proof (relation "measure (\<lambda>(U, ic, t, r, p, c). rsize (length t) r)", goal_cases)
  case 1
  then show ?case by simp
next
  case (2 U ic t r1 r2 p c)
  then show ?case by simp
next
  case (3 U ic t r1 r2 p c x xa y)
  then show ?case by simp
next
  case (4 U ic t r1 r2 p c)
  then show ?case by simp
next
  case (5 U ic t r1 r2 p c)
  then show ?case by simp
next
  case (6 U ic t r lo hi p c)
  then show ?case by simp
next
  case (7 U ic t r lo hi p c x xa y)
  then have "(rsize (length t) r + 1) * hi < (rsize (length t) r + 1) * (hi + 1)"
    by simp
  with 7 show ?case by simp
next
  case (8 U ic t r lo p c)
  then show ?case by simp
next
  case (9 U ic t k r p c)
  then show ?case by simp
qed

declare rx.simps [simp del]


record re_match =
  m_start :: nat
  m_end :: nat
  m_groups :: caps

fun ngroups :: "regex \<Rightarrow> nat" where
  "ngroups (Cat a b) = ngroups a + ngroups b"
| "ngroups (Alt a b) = ngroups a + ngroups b"
| "ngroups (Rep r lo hi) = ngroups r"
| "ngroups (RepInf r lo) = ngroups r"
| "ngroups (Grp k r) = Suc (ngroups r)"
| "ngroups r = 0"

definition match_at :: "unicode_db \<Rightarrow> bool \<Rightarrow> regex \<Rightarrow> ustring \<Rightarrow> nat \<Rightarrow> re_match option" where
  \<comment> \<open>the match the engine reports at offset \<open>p\<close>, if there is one\<close>
  "match_at U ic r t p =
     (case rx U ic t r p (replicate (ngroups r) None) of
        [] \<Rightarrow> None
      | (e, c) # _ \<Rightarrow> Some \<lparr> m_start = p, m_end = e, m_groups = c \<rparr>)"

definition re_match :: "unicode_db \<Rightarrow> regex \<Rightarrow> ustring \<Rightarrow> re_match option" where
  \<comment> \<open>\<open>re.match(pattern, s)\<close>, no flags\<close>
  "re_match U r s = match_at U False r s 0"

function search_from :: "unicode_db \<Rightarrow> bool \<Rightarrow> regex \<Rightarrow> ustring \<Rightarrow> nat \<Rightarrow> re_match option" where
  "search_from U ic r t p =
     (if length t < p then None
      else (case match_at U ic r t p of
              Some m \<Rightarrow> Some m
            | None \<Rightarrow> search_from U ic r t (Suc p)))"
  by pat_completeness auto
termination
  by (relation "measure (\<lambda>(U, ic, r, t, p). Suc (length t) - p)") auto

declare search_from.simps [simp del]

definition re_search :: "unicode_db \<Rightarrow> regex \<Rightarrow> ustring \<Rightarrow> re_match option" where
  \<comment> \<open>\<open>re.search(pattern, s)\<close>, no flags\<close>
  "re_search U r s = search_from U False r s 0"

text \<open>
  \<open>re.finditer\<close>: the matches from left to right, each search starting where the
  previous match ended. No pattern of the registry matches the empty string (lemma
  \<open>registry_matches_not_empty\<close> below), so the engine's rule for resuming after an
  empty match is only written as a step forward.
\<close>

function finditer_from :: "unicode_db \<Rightarrow> bool \<Rightarrow> regex \<Rightarrow> ustring \<Rightarrow> nat \<Rightarrow> re_match list" where
  "finditer_from U ic r t p =
     (if length t < p then []
      else (case match_at U ic r t p of
              None \<Rightarrow> finditer_from U ic r t (Suc p)
            | Some m \<Rightarrow> m # finditer_from U ic r t (if p < m_end m then m_end m else Suc p)))"
  by pat_completeness auto
termination
  by (relation "measure (\<lambda>(U, ic, r, t, p). Suc (length t) - p)") auto

declare finditer_from.simps [simp del]

definition finditer :: "unicode_db \<Rightarrow> bool \<Rightarrow> regex \<Rightarrow> ustring \<Rightarrow> re_match list" where
  "finditer U ic r t = finditer_from U ic r t 0"

definition match_group :: "re_match \<Rightarrow> ustring \<Rightarrow> ustring" where
  \<comment> \<open>\<open>match.group()\<close>\<close>
  "match_group m t = slice t (m_start m) (m_end m)"

fun min_len :: "regex \<Rightarrow> nat" where
  \<comment> \<open>a lower bound on the number of characters a match consumes\<close>
  "min_len (Lit s) = length s"
| "min_len (Cls cs) = 1"
| "min_len (Cat a b) = min_len a + min_len b"
| "min_len (Alt a b) = min (min_len a) (min_len b)"
| "min_len (Rep r lo hi) = lo * min_len r"
| "min_len (RepInf r lo) = lo * min_len r"
| "min_len (Grp k r) = min_len r"
| "min_len r = 0"


section \<open>The pattern registry\<close>

definition ch :: "char \<Rightarrow> nat" where
  "ch c = of_char c"

definition chrs :: "string \<Rightarrow> citem list" where
  "chrs s = map (\<lambda>c. Chr (of_char c)) s"

definition dig :: regex where
  "dig = Cls [Dig]"

definition az :: citem where "az = Rng (ch CHR ''a'') (ch CHR ''z'')"
definition AZ :: citem where "AZ = Rng (ch CHR ''A'') (ch CHR ''Z'')"
definition d09 :: citem where "d09 = Rng (ch CHR ''0'') (ch CHR ''9'')"

definition han :: citem where
  \<comment> \<open>the range U+4E00 to U+9FA5\<close>
  "han = Rng 0x4E00 0x9FA5"

definition phone_pattern :: regex where
  \<comment> \<open>\<open>(?:\+?86)?(?<!\d)1[3-9]\d{9}(?!\d)\<close>\<close>
  "phone_pattern =
     seq [opt (Cat (opt (Lit (asc ''+''))) (Lit (asc ''86''))),
          NotBehind [Dig],
          Lit (asc ''1''), Cls [Rng (ch CHR ''3'') (ch CHR ''9'')], Rep dig 9 9,
          NotAhead [Dig]]"

definition landline_core :: regex where
  \<comment> \<open>\<open>(?:0\d{2,3}[-\s])?(?:[2-9]\d{6,7})\<close>\<close>
  "landline_core =
     seq [opt (seq [Lit (asc ''0''), Rep dig 2 3, Cls [Chr (ch CHR ''-''), Spc]]),
          Cls [Rng (ch CHR ''2'') (ch CHR ''9'')], Rep dig 6 7]"

definition landline_pattern :: regex where
  \<comment> \<open>\<open>(?<!\d)(?:0\d{2,3}[-\s])?(?:[2-9]\d{6,7})(?!\d)\<close>\<close>
  "landline_pattern = seq [NotBehind [Dig], landline_core, NotAhead [Dig]]"

definition id_card_core :: regex where
  \<comment> \<open>\<open>[1-9]\d{5}(?:19|20)\d{2}(?:0[1-9]|1[0-2])(?:0[1-9]|[12]\d|3[01])\d{3}[\dXx]\<close>\<close>
  "id_card_core =
     seq [Cls [Rng (ch CHR ''1'') (ch CHR ''9'')], Rep dig 5 5,
          Alt (Lit (asc ''19'')) (Lit (asc ''20'')), Rep dig 2 2,
          Alt (Cat (Lit (asc ''0'')) (Cls [Rng (ch CHR ''1'') (ch CHR ''9'')]))
              (Cat (Lit (asc ''1'')) (Cls [Rng (ch CHR ''0'') (ch CHR ''2'')])),
          alts [Cat (Lit (asc ''0'')) (Cls [Rng (ch CHR ''1'') (ch CHR ''9'')]),
                Cat (Cls (chrs ''12'')) dig,
                Cat (Lit (asc ''3'')) (Cls (chrs ''01''))],
          Rep dig 3 3, Cls (Dig # chrs ''Xx'')]"

definition id_card_pattern :: regex where
  "id_card_pattern = seq [NotBehind [Dig], id_card_core, NotAhead [Dig]]"

definition cities :: "ustring list" where
  \<comment> \<open>the place names of the address rule, in the order of the source\<close>
  "cities =
     [[0x5317, 0x4EAC], [0x4E0A, 0x6D77], [0x5929, 0x6D25], [0x91CD, 0x5E86],
      [0x5E7F, 0x5DDE], [0x6DF1, 0x5733], [0x676D, 0x5DDE], [0x5357, 0x4EAC],
      [0x6B66, 0x6C49], [0x6210, 0x90FD], [0x897F, 0x5B89], [0x6C88, 0x9633],
      [0x5927, 0x8FDE], [0x9752, 0x5C9B], [0x6D4E, 0x5357], [0x90D1, 0x5DDE],
      [0x957F, 0x6C99], [0x798F, 0x5DDE], [0x53A6, 0x95E8], [0x54C8, 0x5C14, 0x6EE8],
      [0x957F, 0x6625], [0x592A, 0x539F], [0x77F3, 0x5BB6, 0x5E84],
      [0x547C, 0x548C, 0x6D69, 0x7279], [0x5357, 0x5B81], [0x94F6, 0x5DDD],
      [0x4E4C, 0x9C81, 0x6728, 0x9F50], [0x62C9, 0x8428], [0x897F, 0x5B81],
      [0x5170, 0x5DDE], [0x8D35, 0x9633], [0x6606, 0x660E], [0x5357, 0x660C],
      [0x5408, 0x80A5], [0x6D77, 0x53E3], [0x4E09, 0x4E9A], [0x9999, 0x6E2F],
      [0x6FB3, 0x95E8], [0x53F0, 0x5317]]"

definition address_pattern :: regex where
  \<comment> \<open>place name; optional U+5E02, U+7701 or U+7279 U+522B U+884C U+653F U+533A;
      1 to 3 ideographs; U+533A, U+53BF or U+5E02; 2 to 10 ideographs; U+8DEF, U+8857,
      U+9053, U+5DF7 or U+80E1 U+540C; 1 to 10 ideographs or digits; optional U+53F7;
      optionally 1 to 10 ideographs or digits and U+53F7 U+697C, U+5355 U+5143, U+5BA4
      or U+53F7\<close>
  "address_pattern =
     seq [alts (map Lit cities),
          opt (alts [Lit [0x5E02], Lit [0x7701], Lit [0x7279, 0x522B, 0x884C, 0x653F, 0x533A]]),
          Rep (Cls [han]) 1 3,
          alts [Lit [0x533A], Lit [0x53BF], Lit [0x5E02]],
          Rep (Cls [han]) 2 10,
          alts [Lit [0x8DEF], Lit [0x8857], Lit [0x9053], Lit [0x5DF7], Lit [0x80E1, 0x540C]],
          Rep (Cls [han, Dig]) 1 10,
          opt (Lit [0x53F7]),
          opt (seq [Rep (Cls [han, Dig]) 1 10,
                    alts [Lit [0x53F7, 0x697C], Lit [0x5355, 0x5143], Lit [0x5BA4], Lit [0x53F7]]])]"

definition email_core :: regex where
  \<comment> \<open>\<open>[a-zA-Z0-9._%+-]+@[a-zA-Z0-9.-]+\.[a-zA-Z]{2,}\<close>\<close>
  "email_core =
     seq [RepInf (Cls ([az, AZ, d09] @ chrs ''._%+-'')) 1,
          Lit (asc ''@''),
          RepInf (Cls ([az, AZ, d09] @ chrs ''.-'')) 1,
          Lit (asc ''.''),
          RepInf (Cls [az, AZ]) 2]"

definition password_labels :: "ustring list" where
  \<comment> \<open>U+5BC6 U+7801, \<open>password\<close>, \<open>pwd\<close>\<close>
  "password_labels = [[0x5BC6, 0x7801], asc ''password'', asc ''pwd'']"

definition password_chars :: "citem list" where
  \<comment> \<open>\<open>[a-zA-Z0-9@#$%^&*]\<close>\<close>
  "password_chars = [az, AZ, d09] @ chrs ''@#$%^&*''"

definition password_pattern :: regex where
  \<comment> \<open>\<open>(?:L|password|pwd)[C:]\s*([a-zA-Z0-9@#$%^&*]{6,20})\<close> where \<open>L\<close> is the
      label U+5BC6 U+7801 and \<open>C\<close> the full-width colon U+FF1A\<close>
  "password_pattern =
     seq [alts (map Lit password_labels),
          Cls [Chr 0xFF1A, Chr (ch CHR '':'')],
          RepInf (Cls [Spc]) 0,
          Grp 0 (Rep (Cls password_chars) 6 20)]"

definition credit_card_pattern :: regex where
  \<comment> \<open>\<open>(?<!\d)(?:\d{4}[\s-]?){3,4}\d{0,4}(?!\d)\<close>\<close>
  "credit_card_pattern =
     seq [NotBehind [Dig],
          Rep (Cat (Rep dig 4 4) (opt (Cls [Spc, Chr (ch CHR ''-'')]))) 3 4,
          Rep dig 0 4,
          NotAhead [Dig]]"

definition octet :: regex where
  \<comment> \<open>\<open>(?:25[0-5]|2[0-4][0-9]|[01]?[0-9][0-9]?)\<close>\<close>
  "octet =
     alts [Cat (Lit (asc ''25'')) (Cls [Rng (ch CHR ''0'') (ch CHR ''5'')]),
           seq [Lit (asc ''2''), Cls [Rng (ch CHR ''0'') (ch CHR ''4'')], Cls [d09]],
           seq [opt (Cls (chrs ''01'')), Cls [d09], opt (Cls [d09])]]"

definition ip_address_pattern :: regex where
  \<comment> \<open>\<open>\b(?:octet\.){3}octet\b\<close>\<close>
  "ip_address_pattern = seq [WordB, Rep (Cat octet (Lit (asc ''.''))) 3 3, octet, WordB]"

section \<open>The validators\<close>

definition get_context_text :: "ustring \<Rightarrow> nat \<Rightarrow> nat \<Rightarrow> nat \<Rightarrow> ustring" where
  \<comment> \<open>\<open>_get_context_text\<close>: the window around a match; \<open>start - context_size\<close> is the
      truncating difference, that is \<open>max(0, start - context_size)\<close>\<close>
  "get_context_text text start end' context_size =
     (let context_start = start - context_size;
          context_end = min (length text) (end' + context_size)
      in slice text context_start context_end)"

definition keyword_rule :: "ustring list \<Rightarrow> regex" where
  \<comment> \<open>\<open>(k1|k2|...)\<close>\<close>
  "keyword_rule ks = Grp 0 (alts (map Lit ks))"

definition in_context :: "unicode_db \<Rightarrow> ustring list \<Rightarrow> ustring \<Rightarrow> re_match \<Rightarrow> bool" where
  \<comment> \<open>\<open>re.search(keywords, self._get_context_text(text, match.start(), match.end(), 20))\<close>
      finds something\<close>
  "in_context U ks text m =
     (re_search U (keyword_rule ks) (get_context_text text (m_start m) (m_end m) 20) \<noteq> None)"

definition phone_keywords :: "ustring list" where
  "phone_keywords =
     [[0x624B, 0x673A], [0x7535, 0x8BDD], [0x8054, 0x7CFB], [0x62E8, 0x6253], [0x53F7, 0x7801]]"

definition validate_phone :: "unicode_db \<Rightarrow> re_match \<Rightarrow> ustring \<Rightarrow> error + int" where
  "validate_phone U m text =
     (let phone = match_group m text;
          digits_only = filter (is_digit U) phone;
          digits_only = (if length digits_only > 11 \<and> take 2 digits_only = asc ''86''
                         then drop 2 digits_only else digits_only)
      in if re_match U (seq [Bol, Lit (asc ''1''), Cls [Rng (ch CHR ''3'') (ch CHR ''9'')],
                             Rep dig 9 9, Eol]) digits_only = None
         then Inr 0
         else if in_context U phone_keywords text m then Inr 100
         else if digits_only \<in> set [asc ''12345678910'', asc ''13800138000'', asc ''13912345678'']
         then Inr 0
         else Inr 80)"

definition landline_keywords :: "ustring list" where
  "landline_keywords =
     [[0x7535, 0x8BDD], [0x5EA7, 0x673A], [0x5206, 0x673A], [0x4F20, 0x771F], [0x5BA2, 0x670D]]"

definition validate_landline :: "unicode_db \<Rightarrow> re_match \<Rightarrow> ustring \<Rightarrow> error + int" where
  "validate_landline U m text =
     (let landline = match_group m text
      in if re_match U (seq [Bol, landline_core, Eol]) landline = None then Inr 0
         else if in_context U landline_keywords text m then Inr 100
         else Inr 70)"

definition id_card_keywords :: "ustring list" where
  "id_card_keywords =
     [[0x8EAB, 0x4EFD, 0x8BC1], [0x8BC1, 0x4EF6], [0x53F7, 0x7801], [0x8EAB, 0x4EFD],
      [0x8BC1, 0x53F7]]"

definition validate_id_card :: "unicode_db \<Rightarrow> re_match \<Rightarrow> ustring \<Rightarrow> error + int" where
  "validate_id_card U m text =
     (let id_card = match_group m text
      in if re_match U (seq [Bol, id_card_core, Eol]) id_card = None then Inr 0
         else if in_context U id_card_keywords text m then Inr 100
         else (case py_int U (slice id_card 6 10) of Inl e \<Rightarrow> Inl e | Inr year \<Rightarrow>
              (case py_int U (slice id_card 10 12) of Inl e \<Rightarrow> Inl e | Inr month \<Rightarrow>
              (case py_int U (slice id_card 12 14) of Inl e \<Rightarrow> Inl e | Inr day \<Rightarrow>
                 if year < 1900 \<or> year > 2100 \<or> month < 1 \<or> month > 12 \<or> day < 1 \<or> day > 31
                 then Inr 0
                 else Inr 90))))"

definition address_keywords :: "ustring list" where
  "address_keywords =
     [[0x5730, 0x5740], [0x4F4F, 0x5740], [0x5BB6, 0x5EAD], [0x4F4D, 0x4E8E], [0x4F4F, 0x5728]]"

definition validate_address :: "unicode_db \<Rightarrow> re_match \<Rightarrow> ustring \<Rightarrow> error + int" where
  "validate_address U m text =
     (let address = match_group m text
      in if in_context U address_keywords text m then Inr 100
         else if length address < 10 then Inr 0
         else Inr 80)"

definition email_keywords :: "ustring list" where
  "email_keywords =
     [[0x90AE, 0x7BB1], [0x90AE, 0x4EF6], [0x7535, 0x5B50, 0x90AE, 0x4EF6], asc ''Email'',
      [0x8054, 0x7CFB]]"

definition validate_email :: "unicode_db \<Rightarrow> re_match \<Rightarrow> ustring \<Rightarrow> error + int" where
  "validate_email U m text =
     (let email = match_group m text
      in if re_match U (seq [Bol, email_core, Eol]) email = None then Inr 0
         else if in_context U email_keywords text m then Inr 100
         else if re_match U (seq [Bol, Grp 0 (alts [Lit (asc ''test''), Lit (asc ''example''),
                                                     Lit (asc ''sample'')]),
                                  Lit (asc ''@'')]) (str_lower U email) \<noteq> None
         then Inr 30
         else Inr 80)"

definition password_keywords :: "ustring list" where
  "password_keywords =
     [[0x5BC6, 0x7801], [0x53E3, 0x4EE4], asc ''password'', asc ''pwd'']"

definition validate_password :: "unicode_db \<Rightarrow> re_match \<Rightarrow> ustring \<Rightarrow> error + int" where
  "validate_password U m text =
     (if in_context U password_keywords text m then Inr 100 else Inr 90)"

definition credit_card_keywords :: "ustring list" where
  "credit_card_keywords =
     [[0x94F6, 0x884C, 0x5361], [0x4FE1, 0x7528, 0x5361], [0x50A8, 0x84C4, 0x5361],
      [0x5361, 0x53F7], [0x8D26, 0x53F7]]"

fun int_each :: "unicode_db \<Rightarrow> ustring \<Rightarrow> error + int list" where
  \<comment> \<open>\<open>[int(d) for d in card]\<close>\<close>
  "int_each U [] = Inr []"
| "int_each U (d # ds) =
     (case py_int U [d] of
        Inl e \<Rightarrow> Inl e
      | Inr v \<Rightarrow> (case int_each U ds of Inl e \<Rightarrow> Inl e | Inr vs \<Rightarrow> Inr (v # vs)))"

function luhn_double :: "int list \<Rightarrow> int \<Rightarrow> int list" where
  \<comment> \<open>the loop \<open>for i in range(len(digits)-2, -1, -2)\<close>, entered at index \<open>i\<close>\<close>
  "luhn_double digits i =
     (if i < 0 then digits
      else (let d = digits ! nat i * 2;
                d = (if d > 9 then d - 9 else d)
            in luhn_double (digits[nat i := d]) (i - 2)))"
  by pat_completeness auto
termination
  by (relation "measure (\<lambda>(digits, i). nat (i + 2))") auto

declare luhn_double.simps [simp del]

definition remove_char :: "nat \<Rightarrow> ustring \<Rightarrow> ustring" where
  \<comment> \<open>\<open>s.replace(c, '')\<close>\<close>
  "remove_char c s = filter (\<lambda>x. x \<noteq> c) s"

definition validate_credit_card :: "unicode_db \<Rightarrow> re_match \<Rightarrow> ustring \<Rightarrow> error + int" where
  "validate_credit_card U m text =
     (let card = remove_char (ch CHR ''-'') (remove_char (ch CHR '' '') (match_group m text))
      in if re_match U (seq [Bol, Rep dig 16 19, Eol]) card = None then Inr 0
         else if in_context U credit_card_keywords text m then Inr 100
         else (case int_each U card of
                 Inl e \<Rightarrow> Inl e
               | Inr digits \<Rightarrow>
                   (let digits = luhn_double digits (int (length digits) - 2)
                    in if sum_list digits mod 10 \<noteq> 0 then Inr 0 else Inr 80)))"





definition ip_address_keywords :: "ustring list" where
  "ip_address_keywords =
     [asc ''IP'', [0x5730, 0x5740], [0x670D, 0x52A1, 0x5668], [0x7F51, 0x7EDC], [0x4E3B, 0x673A]]"

fun check_parts :: "unicode_db \<Rightarrow> ustring list \<Rightarrow> error + bool" where
  \<comment> \<open>the loop over the octets: \<open>False\<close> when one is not a number or exceeds 255\<close>
  "check_parts U [] = Inr True"
| "check_parts U (part # parts) =
     (if \<not> str_isdigit U part then Inr False
      else (case py_int U part of
              Inl e \<Rightarrow> Inl e
            | Inr v \<Rightarrow> if v > 255 then Inr False else check_parts U parts))"

definition validate_ip_address :: "unicode_db \<Rightarrow> re_match \<Rightarrow> ustring \<Rightarrow> error + int" where
  "validate_ip_address U m text =
     (let ip = match_group m text;
          parts = split_on (ch CHR ''.'') ip
      in if length parts \<noteq> 4 then Inr 0
         else (case check_parts U parts of
                 Inl e \<Rightarrow> Inl e
               | Inr False \<Rightarrow> Inr 0
               | Inr True \<Rightarrow>
                   if in_context U ip_address_keywords text m then Inr 100
                   else if ip \<in> set [asc ''127.0.0.1'', asc ''0.0.0.0'', asc ''255.255.255.255'']
                   then Inr 50
                   else Inr 70))"

record pattern_spec =
  pattern :: regex
  validator :: "unicode_db \<Rightarrow> re_match \<Rightarrow> ustring \<Rightarrow> error + int"

definition patterns :: "(ustring \<times> pattern_spec) list" where
  \<comment> \<open>\<open>self.patterns\<close>; the display name and the description of an entry are not
      modelled. Every entry has a validator.\<close>
  "patterns =
     [(asc ''phone'', \<lparr> pattern = phone_pattern, validator = validate_phone \<rparr>),
      (asc ''landline'', \<lparr> pattern = landline_pattern, validator = validate_landline \<rparr>),
      (asc ''id_card'', \<lparr> pattern = id_card_pattern, validator = validate_id_card \<rparr>),
      (asc ''address'', \<lparr> pattern = address_pattern, validator = validate_address \<rparr>),
      (asc ''email'', \<lparr> pattern = email_core, validator = validate_email \<rparr>),
      (asc ''password'', \<lparr> pattern = password_pattern, validator = validate_password \<rparr>),
      (asc ''credit_card'', \<lparr> pattern = credit_card_pattern, validator = validate_credit_card \<rparr>),
      (asc ''ip_address'', \<lparr> pattern = ip_address_pattern, validator = validate_ip_address \<rparr>)]"


section \<open>The detector\<close>

record detector =
  enabled_types :: "ustring list"
  confidence_threshold :: int

definition init_detector :: detector where
  \<comment> \<open>\<open>__init__\<close>: every type enabled, threshold 50. \<open>enabled_types\<close> is a Python set;
      the list fixes one order of iteration.\<close>
  "init_detector = \<lparr> enabled_types = map fst patterns, confidence_threshold = 50 \<rparr>"

definition set_enabled_types :: "detector \<Rightarrow> ustring list \<Rightarrow> error + detector" where
  "set_enabled_types d type_ids =
     (case find (\<lambda>type_id. map_of patterns type_id = None) type_ids of
        Some type_id \<Rightarrow> Inl (InvalidTypeId type_id)
      | None \<Rightarrow> Inr (d\<lparr> enabled_types := remdups type_ids \<rparr>))"

definition set_confidence_threshold :: "detector \<Rightarrow> int \<Rightarrow> error + detector" where
  "set_confidence_threshold d threshold =
     (if threshold < 0 \<or> threshold > 100 then Inl ThresholdOutOfRange
      else Inr (d\<lparr> confidence_threshold := threshold \<rparr>))"

record hit =
  hit_value :: "ustring option"
  hit_start :: int
  hit_end :: int
  hit_context :: ustring
  hit_confidence :: int

definition get_context :: "ustring \<Rightarrow> int \<Rightarrow> int \<Rightarrow> int \<Rightarrow> ustring" where
  \<comment> \<open>\<open>_get_context\<close>: the window with the match between U+3010 and U+3011\<close>
  "get_context text start end' context_size =
     (let context_start = max 0 (start - context_size);
          context_end = min (int (length text)) (end' + context_size);
          prefix = py_slice text context_start start;
          match = py_slice text start end';
          suffix = py_slice text end' context_end
      in prefix @ [0x3010] @ match @ [0x3011] @ suffix)"

definition make_hit :: "ustring \<Rightarrow> ustring \<Rightarrow> re_match \<Rightarrow> int \<Rightarrow> hit" where
  \<comment> \<open>the dictionary appended for an accepted match. For the password type and a rule
      with a group, the value and the offsets are those of group 1; a group that took no
      part in the match has value \<open>None\<close> and offsets \<open>-1\<close>.\<close>
  "make_hit text type_id m confidence =
     (if type_id = asc ''password'' \<and> m_groups m \<noteq> [] then
        (case hd (m_groups m) of
           Some (s, e) \<Rightarrow>
             \<lparr> hit_value = Some (slice text s e), hit_start = int s, hit_end = int e,
               hit_context = get_context text (int s) (int e) 20,
               hit_confidence = confidence \<rparr>
         | None \<Rightarrow>
             \<lparr> hit_value = None, hit_start = - 1, hit_end = - 1,
               hit_context = get_context text (- 1) (- 1) 20,
               hit_confidence = confidence \<rparr>)
      else
        \<lparr> hit_value = Some (match_group m text), hit_start = int (m_start m), hit_end = int (m_end m),
          hit_context = get_context text (int (m_start m)) (int (m_end m)) 20,
          hit_confidence = confidence \<rparr>)"

fun collect :: "unicode_db \<Rightarrow> int \<Rightarrow> ustring \<Rightarrow> ustring \<Rightarrow>
    (unicode_db \<Rightarrow> re_match \<Rightarrow> ustring \<Rightarrow> error + int) \<Rightarrow> re_match list \<Rightarrow> error + hit list" where
  \<comment> \<open>the loop over the matches of one type: validate, drop what is below the
      threshold, keep the rest in the order found; an exception of a validator ends
      the call\<close>
  "collect U threshold text type_id v [] = Inr []"
| "collect U threshold text type_id v (m # ms) =
     (case v U m text of
        Inl e \<Rightarrow> Inl e
      | Inr confidence \<Rightarrow>
          (case collect U threshold text type_id v ms of
             Inl e \<Rightarrow> Inl e
           | Inr hs \<Rightarrow>
               Inr (if confidence < threshold then hs
                    else make_hit text type_id m confidence # hs)))"

type_synonym results = "ustring \<rightharpoonup> hit list"

definition append_hits :: "results \<Rightarrow> ustring \<Rightarrow> hit list \<Rightarrow> results" where
  \<comment> \<open>\<open>results[type_id].append(...)\<close> for each accepted match: a key appears with its
      first hit\<close>
  "append_hits res type_id hs =
     (if hs = [] then res
      else res(type_id \<mapsto> (case res type_id of None \<Rightarrow> [] | Some old \<Rightarrow> old) @ hs))"

fun detect_types :: "unicode_db \<Rightarrow> int \<Rightarrow> ustring \<Rightarrow> ustring list \<Rightarrow> results \<Rightarrow> error + results" where
  \<comment> \<open>the loop over the requested types\<close>
  "detect_types U threshold text [] res = Inr res"
| "detect_types U threshold text (type_id # type_ids) res =
     (case map_of patterns type_id of
        None \<Rightarrow> detect_types U threshold text type_ids res
      | Some spec \<Rightarrow>
          (case collect U threshold text type_id (validator spec)
                  (finditer U True (pattern spec) text) of
             Inl e \<Rightarrow> Inl e
           | Inr hs \<Rightarrow> detect_types U threshold text type_ids (append_hits res type_id hs)))"

definition detect_sensitive_info ::
    "unicode_db \<Rightarrow> detector \<Rightarrow> ustring option \<Rightarrow> ustring list option \<Rightarrow> error + results" where
  \<comment> \<open>\<open>text = None\<close> is Python's \<open>None\<close>; \<open>info_types = None\<close> is the default argument\<close>
  "detect_sensitive_info U d text info_types =
     (case text of
        None \<Rightarrow> Inr Map.empty
      | Some t \<Rightarrow>
          if strip U t = [] then Inr Map.empty
          else (case info_types of
                  None \<Rightarrow> detect_types U (confidence_threshold d) t (enabled_types d) Map.empty
                | Some type_ids \<Rightarrow>
                    (case find (\<lambda>type_id. map_of patterns type_id = None) type_ids of
                       Some type_id \<Rightarrow> Inl (InvalidTypeId type_id)
                     | None \<Rightarrow>
                         detect_types U (confidence_threshold d) t type_ids Map.empty)))"

definition hits_of :: "results \<Rightarrow> ustring \<Rightarrow> hit list" where
  \<comment> \<open>the matches reported for a type; none when the key is absent\<close>
  "hits_of res type_id = (case res type_id of None \<Rightarrow> [] | Some hs \<Rightarrow> hs)"


section \<open>Evaluation on concrete inputs\<close>

lemmas rx_eval = rx.simps finditer_def finditer_from.simps match_at_def search_from.simps
  re_match_def re_search_def opt_def dig_def asc_def ch_def chrs_def az_def AZ_def d09_def han_def
  in_class_def lit_at_def chr_eq_def ci_fold_def ci_upper_def basic_db_def is_decimal_def
  ascii_digit_def match_group_def slice_def get_context_text_def in_context_def keyword_rule_def
  password_labels_def password_chars_def

lemmas detect_eval = detect_sensitive_info_def strip_def patterns_def init_detector_def
  make_hit_def get_context_def py_slice_def append_hits_def hits_of_def

lemma detect_plain_phone:
  "detect_sensitive_info basic_db (init_detector\<lparr>confidence_threshold := 50\<rparr>)
     (Some (asc ''13812345678'')) (Some [asc ''phone''])
   = Inr [asc ''phone'' \<mapsto>
        [\<lparr> hit_value = Some (asc ''13812345678''), hit_start = 0, hit_end = 11,
           hit_context = [0x3010] @ asc ''13812345678'' @ [0x3011], hit_confidence = 80 \<rparr>]]"
  by (simp add: rx_eval detect_eval phone_pattern_def validate_phone_def phone_keywords_def)

lemma detect_plain_phone_90:
  "detect_sensitive_info basic_db (init_detector\<lparr>confidence_threshold := 90\<rparr>)
     (Some (asc ''13812345678'')) (Some [asc ''phone'']) = Inr Map.empty"
  by (simp add: rx_eval detect_eval phone_pattern_def validate_phone_def phone_keywords_def)

section \<open>The loop over types and matches\<close>

lemma strip_empty_iff: "strip U s = [] \<longleftrightarrow> list_all (is_space U) s"
proof
  assume "strip U s = []"
  then have all: "\<forall>x \<in> set (dropWhile (is_space U) s). is_space U x"
    by (simp add: strip_def dropWhile_eq_Nil_conv)
  have "dropWhile (is_space U) s = []"
  proof (rule ccontr)
    assume ne: "dropWhile (is_space U) s \<noteq> []"
    then have "\<not> is_space U (hd (dropWhile (is_space U) s))" by (rule hd_dropWhile)
    moreover have "hd (dropWhile (is_space U) s) \<in> set (dropWhile (is_space U) s)"
      using ne by simp
    ultimately show False using all by blast
  qed
  then show "list_all (is_space U) s"
    by (simp add: dropWhile_eq_Nil_conv list_all_iff)
next
  assume "list_all (is_space U) s"
  then have "dropWhile (is_space U) s = []"
    by (simp add: dropWhile_eq_Nil_conv list_all_iff)
  then show "strip U s = []" by (simp only: strip_def rev.simps dropWhile.simps)
qed

lemma hits_of_append_hits:
  "hits_of (append_hits res k hs) k' = (if k' = k then hits_of res k @ hs else hits_of res k')"
  by (simp add: hits_of_def append_hits_def)

lemma hit_confidence_make_hit: "hit_confidence (make_hit text type_id m conf) = conf"
  by (simp add: make_hit_def split: option.splits)

lemma collect_confidence:
  "collect U thr text type_id v ms = Inr hs \<Longrightarrow> h \<in> set hs \<Longrightarrow> thr \<le> hit_confidence h"
proof (induction ms arbitrary: hs)
  case Nil
  then show ?case by simp
next
  case (Cons m ms)
  then show ?case
    by (auto simp: hit_confidence_make_hit split: sum.splits if_splits)
qed

lemma detect_types_confidence:
  "detect_types U thr text type_ids res = Inr res' \<Longrightarrow>
   (\<forall>k. \<forall>h \<in> set (hits_of res k). thr \<le> hit_confidence h) \<Longrightarrow>
   h \<in> set (hits_of res' k) \<Longrightarrow> thr \<le> hit_confidence h"
proof (induction type_ids arbitrary: res)
  case Nil
  then show ?case by simp
next
  case (Cons type_id type_ids)
  show ?case
  proof (cases "map_of patterns type_id")
    case None
    with Cons.prems have "detect_types U thr text type_ids res = Inr res'" by simp
    then show ?thesis using Cons.IH Cons.prems(2,3) by blast
  next
    case (Some spec)
    with Cons.prems(1) obtain hs where
      hs: "collect U thr text type_id (validator spec) (finditer U True (pattern spec) text) = Inr hs"
      and rest: "detect_types U thr text type_ids (append_hits res type_id hs) = Inr res'"
      by (auto split: sum.splits)
    have "\<forall>k. \<forall>h \<in> set (hits_of (append_hits res type_id hs) k). thr \<le> hit_confidence h"
      using Cons.prems(2) collect_confidence [OF hs] by (auto simp: hits_of_append_hits)
    then show ?thesis using Cons.IH [OF rest] Cons.prems(3) by blast
  qed
qed

lemma detect_cases:
  "detect_sensitive_info U d text info_types = Inr res \<Longrightarrow>
   res = Map.empty \<or> (\<exists>t ts. text = Some t \<and> detect_types U (confidence_threshold d) t ts Map.empty = Inr res)"
  by (auto simp: detect_sensitive_info_def split: option.splits if_splits)

lemma collect_mono:
  "t1 \<le> t2 \<Longrightarrow>
   (\<exists>e. collect U t1 text k v ms = Inl e \<and> collect U t2 text k v ms = Inl e) \<or>
   (\<exists>hs1 hs2. collect U t1 text k v ms = Inr hs1 \<and> collect U t2 text k v ms = Inr hs2 \<and>
      length hs2 \<le> length hs1)"
proof (induction ms)
  case Nil
  then show ?case by simp
next
  case (Cons m ms)
  from Cons.IH [OF Cons.prems] show ?case
    using Cons.prems by (cases "v U m text") auto
qed

lemma detect_types_mono:
  "t1 \<le> t2 \<Longrightarrow> (\<forall>k. length (hits_of r2 k) \<le> length (hits_of r1 k)) \<Longrightarrow>
   (\<exists>e. detect_types U t1 text ts r1 = Inl e \<and> detect_types U t2 text ts r2 = Inl e) \<or>
   (\<exists>r1' r2'. detect_types U t1 text ts r1 = Inr r1' \<and> detect_types U t2 text ts r2 = Inr r2' \<and>
      (\<forall>k. length (hits_of r2' k) \<le> length (hits_of r1' k)))"
proof (induction ts arbitrary: r1 r2)
  case Nil
  then show ?case by simp
next
  case (Cons type_id ts)
  show ?case
  proof (cases "map_of patterns type_id")
    case None
    then show ?thesis using Cons.IH [OF Cons.prems] by simp
  next
    case (Some spec)
    let ?ms = "finditer U True (pattern spec) text"
    from collect_mono [OF Cons.prems(1), of U "text" type_id "validator spec" ?ms]
    show ?thesis
    proof (elim disjE exE conjE)
      fix e
      assume "collect U t1 text type_id (validator spec) ?ms = Inl e"
        and "collect U t2 text type_id (validator spec) ?ms = Inl e"
      then show ?thesis using Some by simp
    next
      fix hs1 hs2
      assume c1: "collect U t1 text type_id (validator spec) ?ms = Inr hs1"
        and c2: "collect U t2 text type_id (validator spec) ?ms = Inr hs2"
        and le: "length hs2 \<le> length hs1"
      have "\<forall>k. length (hits_of (append_hits r2 type_id hs2) k)
                 \<le> length (hits_of (append_hits r1 type_id hs1) k)"
        using Cons.prems(2) le by (simp add: hits_of_append_hits add_mono)
      from Cons.IH [OF Cons.prems(1) this] show ?thesis
        using Some c1 c2 by simp
    qed
  qed
qed

lemma collect_provenance:
  "collect U thr text k v ms = Inr hs \<Longrightarrow> h \<in> set hs \<Longrightarrow>
   \<exists>m conf. m \<in> set ms \<and> v U m text = Inr conf \<and> thr \<le> conf \<and> h = make_hit text k m conf"
proof (induction ms arbitrary: hs)
  case Nil
  then show ?case by simp
next
  case (Cons m ms)
  from Cons.prems(1) obtain conf hs' where
    conf: "v U m text = Inr conf" and
    rest: "collect U thr text k v ms = Inr hs'" and
    hs: "hs = (if conf < thr then hs' else make_hit text k m conf # hs')"
    by (auto split: sum.splits)
  show ?case
  proof (cases "h \<in> set hs'")
    case True
    from Cons.IH [OF rest True] show ?thesis by auto
  next
    case False
    with hs Cons.prems(2) have "\<not> conf < thr" "h = make_hit text k m conf"
      by (auto split: if_splits)
    with conf show ?thesis by auto
  qed
qed

lemma detect_types_provenance:
  "detect_types U thr text ts res = Inr res' \<Longrightarrow> h \<in> set (hits_of res' k) \<Longrightarrow>
   h \<in> set (hits_of res k) \<or>
   (\<exists>spec m conf. map_of patterns k = Some spec \<and>
      m \<in> set (finditer U True (pattern spec) text) \<and>
      validator spec U m text = Inr conf \<and> thr \<le> conf \<and> h = make_hit text k m conf)"
proof (induction ts arbitrary: res)
  case Nil
  then show ?case by simp
next
  case (Cons type_id ts)
  show ?case
  proof (cases "map_of patterns type_id")
    case None
    with Cons.prems(1) have "detect_types U thr text ts res = Inr res'" by simp
    from Cons.IH [OF this Cons.prems(2)] show ?thesis .
  next
    case (Some spec)
    with Cons.prems(1) obtain hs where
      hs: "collect U thr text type_id (validator spec) (finditer U True (pattern spec) text) = Inr hs"
      and rest: "detect_types U thr text ts (append_hits res type_id hs) = Inr res'"
      by (auto split: sum.splits)
    from Cons.IH [OF rest Cons.prems(2)] show ?thesis
    proof
      assume "h \<in> set (hits_of (append_hits res type_id hs) k)"
      then consider "h \<in> set (hits_of res k)" | "k = type_id" "h \<in> set hs"
        by (auto simp: hits_of_append_hits split: if_splits)
      then show ?thesis
      proof cases
        case 1
        then show ?thesis by simp
      next
        case 2
        from collect_provenance [OF hs 2(2)] Some 2(1) show ?thesis by blast
      qed
    next
      assume "\<exists>spec m conf. map_of patterns k = Some spec \<and>
        m \<in> set (finditer U True (pattern spec) text) \<and>
        validator spec U m text = Inr conf \<and> thr \<le> conf \<and> h = make_hit text k m conf"
      then show ?thesis by simp
    qed
  qed
qed

lemma detect_provenance:
  assumes "detect_sensitive_info U d (Some tx) info_types = Inr res"
    and "h \<in> set (hits_of res k)"
  shows "\<exists>spec m conf. map_of patterns k = Some spec \<and>
      m \<in> set (finditer U True (pattern spec) tx) \<and>
      validator spec U m tx = Inr conf \<and> confidence_threshold d \<le> conf \<and>
      h = make_hit tx k m conf"
proof -
  from assms(2) have "res \<noteq> Map.empty" by (auto simp: hits_of_def)
  with assms(1) obtain ts where
    "detect_types U (confidence_threshold d) tx ts Map.empty = Inr res"
    by (auto simp: detect_sensitive_info_def split: option.splits if_splits)
  from detect_types_provenance [OF this assms(2)] show ?thesis
    by (simp add: hits_of_def)
qed

lemma find_unregistered:
  assumes "type_id \<in> set type_ids" "map_of patterns type_id = None"
  shows "\<exists>bad. find (\<lambda>type_id. map_of patterns type_id = None) type_ids = Some bad \<and>
           bad \<in> set type_ids \<and> map_of patterns bad = None"
proof (cases "find (\<lambda>type_id. map_of patterns type_id = None) type_ids")
  case None
  with assms show ?thesis by (auto simp: find_None_iff)
next
  case (Some bad)
  then show ?thesis by (auto simp: find_Some_iff)
qed

section \<open>Keyword search in the context window\<close>

lemma rx_alts_lits:
  "ks \<noteq> [] \<Longrightarrow>
   set (rx U ic t (alts (map Lit ks)) p c) = {(p + length k, c) | k. k \<in> set ks \<and> lit_at ic k t p}"
proof (induction ks)
  case Nil
  then show ?case by simp
next
  case (Cons k ks)
  show ?case
  proof (cases ks)
    case Nil
    then show ?thesis by (auto simp: rx.simps)
  next
    case (Cons k' ks')
    then have "alts (map Lit (k # ks)) = Alt (Lit k) (alts (map Lit ks))" by simp
    moreover have "set (rx U ic t (alts (map Lit ks)) p c)
        = {(p + length k, c) | k. k \<in> set ks \<and> lit_at ic k t p}"
      using Cons.IH Cons by simp
    ultimately show ?thesis by (auto simp: rx.simps)
  qed
qed

lemma match_at_None_iff: "match_at U ic r t p = None \<longleftrightarrow> rx U ic t r p (replicate (ngroups r) None) = []"
  by (simp add: match_at_def split: list.splits)

lemma search_from_None_iff:
  "search_from U ic r t p = None \<longleftrightarrow> (\<forall>q. p \<le> q \<and> q \<le> length t \<longrightarrow> match_at U ic r t q = None)"
proof (induction U ic r t p rule: search_from.induct)
  case (1 U ic r t p)
  show ?case
  proof (cases "length t < p")
    case True
    then show ?thesis by (subst search_from.simps) auto
  next
    case False
    show ?thesis
    proof (cases "match_at U ic r t p")
      case None
      have "search_from U ic r t p = search_from U ic r t (Suc p)"
        using False None by (subst search_from.simps) simp
      also have "\<dots> = None \<longleftrightarrow> (\<forall>q. Suc p \<le> q \<and> q \<le> length t \<longrightarrow> match_at U ic r t q = None)"
        using 1 [OF False None] .
      also have "\<dots> \<longleftrightarrow> (\<forall>q. p \<le> q \<and> q \<le> length t \<longrightarrow> match_at U ic r t q = None)"
        using None by (metis Suc_leI le_neq_implies_less Suc_leD)
      finally show ?thesis .
    next
      case (Some m)
      then have "search_from U ic r t p = Some m"
        using False by (subst search_from.simps) simp
      with Some False show ?thesis by (auto intro!: exI [of _ p])
    qed
  qed
qed

lemma lit_at_exact: "lit_at False k s q \<longleftrightarrow> q + length k \<le> length s \<and> take (length k) (drop q s) = k"
proof -
  have "chr_eq False = (\<lambda>a b. a = b)" by (auto simp: chr_eq_def fun_eq_iff)
  then show ?thesis by (auto simp: lit_at_def list.rel_eq)
qed

lemma sublist_iff_take_drop:
  "sublist k s \<longleftrightarrow> (\<exists>q. q + length k \<le> length s \<and> take (length k) (drop q s) = k)"
proof
  assume "sublist k s"
  then obtain ps ss where "s = ps @ k @ ss" by (auto simp: sublist_def)
  then show "\<exists>q. q + length k \<le> length s \<and> take (length k) (drop q s) = k"
    by (intro exI [of _ "length ps"]) simp
next
  assume "\<exists>q. q + length k \<le> length s \<and> take (length k) (drop q s) = k"
  then obtain q where q: "q + length k \<le> length s" "take (length k) (drop q s) = k" by blast
  have "s = take q s @ take (length k) (drop q s) @ drop (length k) (drop q s)"
    by (simp only: append_take_drop_id)
  with q show "sublist k s" by (metis sublist_appendI)
qed

lemma re_search_keywords:
  assumes "ks \<noteq> []"
  shows "re_search U (keyword_rule ks) s \<noteq> None \<longleftrightarrow> (\<exists>k \<in> set ks. sublist k s)"
proof -
  have m: "match_at U False (keyword_rule ks) s q \<noteq> None \<longleftrightarrow> (\<exists>k \<in> set ks. lit_at False k s q)" for q
  proof -
    have "rx U False s (keyword_rule ks) q c = [] \<longleftrightarrow> rx U False s (alts (map Lit ks)) q c = []" for c
      by (simp add: keyword_rule_def rx.simps)
    moreover have "rx U False s (alts (map Lit ks)) q c = [] \<longleftrightarrow> \<not> (\<exists>k \<in> set ks. lit_at False k s q)" for c
      using rx_alts_lits [OF assms, of U False s q c] by (auto simp: set_empty [symmetric] simp del: set_empty)
    ultimately show ?thesis by (simp add: match_at_None_iff)
  qed
  have "re_search U (keyword_rule ks) s \<noteq> None \<longleftrightarrow> (\<exists>q. q \<le> length s \<and> (\<exists>k \<in> set ks. lit_at False k s q))"
    using m by (auto simp: re_search_def search_from_None_iff)
  also have "\<dots> \<longleftrightarrow> (\<exists>k \<in> set ks. sublist k s)"
  proof -
    have "q \<le> length s" if "q + length k \<le> length s" for q and k :: ustring
      using that by simp
    then show ?thesis
      unfolding lit_at_exact sublist_iff_take_drop by blast
  qed
  finally show ?thesis .
qed

lemma in_context_iff:
  "ks \<noteq> [] \<Longrightarrow> in_context U ks text m \<longleftrightarrow>
     (\<exists>k \<in> set ks. sublist k (get_context_text text (m_start m) (m_end m) 20))"
  unfolding in_context_def by (rule re_search_keywords)

section \<open>Validators on fixed values\<close>

lemma unicode_ok_to_decimal: "unicode_ok U \<Longrightarrow> ascii_digit c \<Longrightarrow> to_decimal U c = Some (c - 48)"
  by (simp add: unicode_ok_def)

lemma unicode_ok_is_decimal: "unicode_ok U \<Longrightarrow> ascii_digit c \<Longrightarrow> is_decimal U c"
  by (simp add: unicode_ok_def is_decimal_def)

lemma unicode_ok_is_digit: "unicode_ok U \<Longrightarrow> ascii_digit c \<Longrightarrow> is_digit U c"
  by (simp add: unicode_ok_def is_decimal_def)

lemma unicode_ok_basic_db: "unicode_ok basic_db"
  by (simp add: unicode_ok_def basic_db_def is_decimal_def ascii_digit_def)

lemmas rx_sym = rx.simps match_at_def re_match_def opt_def dig_def asc_def ch_def chrs_def
  in_class_def lit_at_def chr_eq_def ascii_digit_def
  unicode_ok_to_decimal unicode_ok_is_decimal unicode_ok_is_digit

lemma validate_phone_placeholder:
  assumes "unicode_ok U" and "match_group m tx = asc ''13800138000''"
  shows "validate_phone U m tx = Inr (if in_context U phone_keywords tx m then 100 else 0)"
  using assms by (simp add: validate_phone_def rx_sym)

lemma validate_card_4111:
  assumes "unicode_ok U" and "match_group m tx = asc ''4111 1111 1111 1111''"
  shows "validate_credit_card U m tx = Inr (if in_context U credit_card_keywords tx m then 100 else 80)"
  using assms by (simp add: validate_credit_card_def rx_sym remove_char_def py_int_def luhn_double.simps)

lemma validate_card_4112:
  assumes "unicode_ok U" and "match_group m tx = asc ''4111 1111 1111 1112''"
  shows "validate_credit_card U m tx = Inr (if in_context U credit_card_keywords tx m then 100 else 0)"
  using assms by (simp add: validate_credit_card_def rx_sym remove_char_def py_int_def luhn_double.simps)

lemma phone_registered:
  "map_of patterns (asc ''phone'') = Some \<lparr> pattern = phone_pattern, validator = validate_phone \<rparr>"
  by (simp add: patterns_def asc_def)

lemma make_hit_whole:
  "type_id \<noteq> asc ''password'' \<Longrightarrow>
   make_hit tx type_id m conf =
     \<lparr> hit_value = Some (match_group m tx), hit_start = int (m_start m), hit_end = int (m_end m),
       hit_context = get_context tx (int (m_start m)) (int (m_end m)) 20,
       hit_confidence = conf \<rparr>"
  by (simp add: make_hit_def)

lemma ssn_unregistered: "map_of patterns (asc ''ssn'') = None"
  by (simp add: patterns_def asc_def)

lemma detect_placeholder_50:
  "detect_sensitive_info basic_db init_detector (Some (asc ''13800138000'')) (Some [asc ''phone''])
     = Inr Map.empty"
  by (simp add: rx_eval detect_eval phone_pattern_def validate_phone_def phone_keywords_def)

section \<open>What a match of the engine looks like\<close>

lemma rx_Lit_iff:
  "(e, c') \<in> set (rx U ic t (Lit s) p c) \<longleftrightarrow> lit_at ic s t p \<and> e = p + length s \<and> c' = c"
  by (auto simp: rx.simps(2))

lemma rx_Cls_iff:
  "(e, c') \<in> set (rx U ic t (Cls cs) p c) \<longleftrightarrow>
     p < length t \<and> in_class U ic cs (t ! p) \<and> e = Suc p \<and> c' = c"
  by (auto simp: rx.simps(3))

lemma rx_Cat_iff:
  "(e, c') \<in> set (rx U ic t (Cat r1 r2) p c) \<longleftrightarrow>
     (\<exists>q c1. (q, c1) \<in> set (rx U ic t r1 p c) \<and> (e, c') \<in> set (rx U ic t r2 q c1))"
  by (auto simp: rx.simps(4))

lemma rx_Alt_iff:
  "(e, c') \<in> set (rx U ic t (Alt r1 r2) p c) \<longleftrightarrow>
     (e, c') \<in> set (rx U ic t r1 p c) \<or> (e, c') \<in> set (rx U ic t r2 p c)"
  by (auto simp: rx.simps(5))

lemma rx_Grp_iff:
  "(e, c') \<in> set (rx U ic t (Grp k r) p c) \<longleftrightarrow>
     (\<exists>c1. (e, c1) \<in> set (rx U ic t r p c) \<and> c' = c1[k := Some (p, e)])"
  by (auto simp: rx.simps(8))

lemma rx_Rep_iff:
  "(e, c') \<in> set (rx U ic t (Rep r lo hi) p c) \<longleftrightarrow>
     (hi \<noteq> 0 \<and> (\<exists>q c1. (q, c1) \<in> set (rx U ic t r p c) \<and>
                    (e, c') \<in> set (rx U ic t (Rep r (lo - 1) (hi - 1)) q c1))) \<or>
     (lo = 0 \<and> e = p \<and> c' = c)"
  by (subst rx.simps(6)) auto


lemma rx_Rep_Cls_sound:
  "(e, c') \<in> set (rx U ic t (Rep (Cls cs) lo hi) p c) \<Longrightarrow>
   c' = c \<and> p + lo \<le> e \<and> e \<le> p + hi \<and>
   (\<forall>i. p \<le> i \<and> i < e \<longrightarrow> i < length t \<and> in_class U ic cs (t ! i))"
proof (induction hi arbitrary: lo p)
  case 0
  then show ?case by (subst (asm) rx_Rep_iff) auto
next
  case (Suc hi)
  from Suc.prems consider
    (step) "p < length t" "in_class U ic cs (t ! p)"
      "(e, c') \<in> set (rx U ic t (Rep (Cls cs) (lo - 1) hi) (Suc p) c)"
    | (stop) "lo = 0" "e = p" "c' = c"
    by (subst (asm) rx_Rep_iff) (auto simp: rx_Cls_iff)
  then show ?case
  proof cases
    case step
    from Suc.IH [OF step(3)] have
      ih: "c' = c" "Suc p + (lo - 1) \<le> e" "e \<le> Suc p + hi"
        "\<forall>i. Suc p \<le> i \<and> i < e \<longrightarrow> i < length t \<and> in_class U ic cs (t ! i)"
      by simp_all
    have "i < length t \<and> in_class U ic cs (t ! i)" if "p \<le> i" "i < e" for i
    proof (cases "i = p")
      case True
      with step show ?thesis by simp
    next
      case False
      with that ih(4) show ?thesis by simp
    qed
    with ih show ?thesis by auto
  next
    case stop
    then show ?thesis by auto
  qed
qed


lemma seq_Cat: "seq (r # r' # rs) = Cat r (seq (r' # rs))"
  by simp

lemma re_match_digit_run:
  assumes "re_match U (seq [Bol, Rep dig lo hi, Eol]) s \<noteq> None"
  shows "\<exists>ds. (s = ds \<or> s = ds @ [10]) \<and> list_all (is_decimal U) ds \<and>
           lo \<le> length ds \<and> length ds \<le> hi"
proof -
  from assms obtain e c' where
    "(e, c') \<in> set (rx U False s (Cat Bol (Cat (Rep (Cls [Dig]) lo hi) Eol)) 0 [])"
    by (auto simp: re_match_def match_at_def dig_def split: list.splits)
  then obtain q c1 where
    run: "(q, c1) \<in> set (rx U False s (Rep (Cls [Dig]) lo hi) 0 [])" and
    eol: "(e, c') \<in> set (rx U False s Eol q c1)"
    by (auto simp: rx_Cat_iff rx.simps(12) split: if_splits)
  from rx_Rep_Cls_sound [OF run] have
    q: "lo \<le> q" "q \<le> hi" "\<forall>i < q. i < length s \<and> is_decimal U (s ! i)"
    by (simp_all add: in_class_def)
  from eol have at_end: "q = length s \<or> (Suc q = length s \<and> s ! q = 10)"
    by (auto simp: rx.simps(13) split: if_splits)
  let ?ds = "take q s"
  from at_end have len: "length ?ds = q" by auto
  have dec: "list_all (is_decimal U) ?ds"
    using q(3) len by (simp add: list_all_length)
  from at_end have "s = ?ds \<or> s = ?ds @ [10]"
  proof
    assume "q = length s"
    then show ?thesis by simp
  next
    assume "Suc q = length s \<and> s ! q = 10"
    then have "s = take q s @ [s ! q]"
      by (metis lessI take_Suc_conv_app_nth take_all order_refl)
    with \<open>Suc q = length s \<and> s ! q = 10\<close> show ?thesis by simp
  qed
  with dec len q show ?thesis by (intro exI [of _ ?ds]) simp
qed

lemma finditer_from_match_at:
  "m \<in> set (finditer_from U ic r t p) \<Longrightarrow> \<exists>q. match_at U ic r t q = Some m"
proof (induction U ic r t p rule: finditer_from.induct)
  case (1 U ic r t p)
  show ?case
  proof (cases "length t < p")
    case True
    with "1.prems" show ?thesis by (subst (asm) finditer_from.simps) simp
  next
    case False
    show ?thesis
    proof (cases "match_at U ic r t p")
      case None
      with False "1.prems" have "m \<in> set (finditer_from U ic r t (Suc p))"
        by (subst (asm) finditer_from.simps) simp
      from "1.IH"(1) [OF False None this] show ?thesis .
    next
      case (Some m')
      with False "1.prems" have
        "m = m' \<or> m \<in> set (finditer_from U ic r t (if p < m_end m' then m_end m' else Suc p))"
        by (subst (asm) finditer_from.simps) simp
      then show ?thesis
      proof
        assume "m = m'"
        with Some show ?thesis by blast
      next
        assume "m \<in> set (finditer_from U ic r t (if p < m_end m' then m_end m' else Suc p))"
        from "1.IH"(2) [OF False Some this] show ?thesis .
      qed
    qed
  qed
qed

lemma finditer_rx:
  assumes "m \<in> set (finditer U ic r t)"
  shows "(m_end m, m_groups m) \<in> set (rx U ic t r (m_start m) (replicate (ngroups r) None))"
proof -
  from assms have "m \<in> set (finditer_from U ic r t 0)" by (simp add: finditer_def)
  from finditer_from_match_at [OF this] obtain q where "match_at U ic r t q = Some m" ..
  then show ?thesis
    by (auto simp: match_at_def split: list.splits)
qed

lemma rx_min_len:
  "(e, c') \<in> set (rx U ic t r p c) \<Longrightarrow> p + min_len r \<le> e"
proof (induction U ic t r p c arbitrary: e c' rule: rx.induct)
  case (1 U ic t p c)
  then show ?case by (simp add: rx.simps(1))
next
  case (2 U ic t s p c)
  then show ?case by (simp add: rx_Lit_iff)
next
  case (3 U ic t cs p c)
  then show ?case by (simp add: rx_Cls_iff)
next
  case (4 U ic t r1 r2 p c)
  from "4.prems" obtain q c1 where
    a: "(q, c1) \<in> set (rx U ic t r1 p c)" and b: "(e, c') \<in> set (rx U ic t r2 q c1)"
    by (auto simp: rx_Cat_iff)
  from "4.IH"(1) [OF a] "4.IH"(2) [OF a _ b] show ?case by simp
next
  case (5 U ic t r1 r2 p c)
  from "5.prems" consider "(e, c') \<in> set (rx U ic t r1 p c)" | "(e, c') \<in> set (rx U ic t r2 p c)"
    by (auto simp: rx_Alt_iff)
  then show ?case
  proof cases
    case 1
    from "5.IH"(1) [OF this] show ?thesis by simp
  next
    case 2
    from "5.IH"(2) [OF this] show ?thesis by simp
  qed
next
  case (6 U ic t r lo hi p c)
  from "6.prems" consider
    (step) q c1 where "hi \<noteq> 0" "(q, c1) \<in> set (rx U ic t r p c)"
      "(e, c') \<in> set (rx U ic t (Rep r (lo - 1) (hi - 1)) q c1)"
    | (stop) "lo = 0" "e = p"
    by (subst (asm) rx_Rep_iff) auto
  then show ?case
  proof cases
    case step
    from "6.IH"(1) [OF step(1,2)] have a: "p + min_len r \<le> q" .
    from "6.IH"(2) [OF step(1,2) _ step(3)] have b: "q + (lo - 1) * min_len r \<le> e" by simp
    show ?thesis
    proof (cases lo)
      case 0
      with a b show ?thesis by simp
    next
      case (Suc n)
      with a b show ?thesis by simp
    qed
  next
    case stop
    then show ?thesis by simp
  qed
next
  case (7 U ic t r lo p c)
  from "7.prems" have "(e, c') \<in> set (rx U ic t (Rep r lo (length t)) p c)"
    by (simp add: rx.simps(7))
  from "7.IH" [OF this] show ?case by simp
next
  case (8 U ic t k r p c)
  from "8.prems" "8.IH" show ?case by (auto simp: rx_Grp_iff)
next
  case (9 U ic t cs p c)
  then show ?case by (simp add: rx.simps(9) split: if_splits)
next
  case (10 U ic t cs p c)
  then show ?case by (simp add: rx.simps(10) split: if_splits)
next
  case (11 U ic t p c)
  then show ?case by (simp add: rx.simps(11) split: if_splits)
next
  case (12 U ic t p c)
  then show ?case by (simp add: rx.simps(12) split: if_splits)
next
  case (13 U ic t p c)
  then show ?case by (simp add: rx.simps(13) split: if_splits)
qed

lemma registry_min_len:
  "map (\<lambda>(type_id, spec). min_len (pattern spec)) patterns = [11, 7, 18, 8, 6, 9, 12, 7]"
  by (simp add: patterns_def phone_pattern_def landline_pattern_def landline_core_def
      id_card_pattern_def id_card_core_def address_pattern_def cities_def email_core_def
      password_pattern_def password_labels_def credit_card_pattern_def ip_address_pattern_def
      octet_def opt_def dig_def asc_def)

lemma registry_matches_not_empty:
  assumes "map_of patterns type_id = Some spec"
    and "m \<in> set (finditer U ic (pattern spec) tx)"
  shows "m_start m < m_end m"
proof -
  from assms(1) have "(type_id, spec) \<in> set patterns" by (rule map_of_SomeD)
  then have "min_len (pattern spec) \<in> set (map (\<lambda>(type_id, spec). min_len (pattern spec)) patterns)"
    by force
  then have "0 < min_len (pattern spec)" unfolding registry_min_len by auto
  with rx_min_len [OF finditer_rx [OF assms(2)]] show ?thesis by simp
qed

lemma rx_opt_iff:
  "(e, c') \<in> set (rx U ic t (opt r) p c) \<longleftrightarrow>
     (e, c') \<in> set (rx U ic t r p c) \<or> (e = p \<and> c' = c)"
proof -
  have zero: "(e, c') \<in> set (rx U ic t (Rep r 0 0) q c1) \<longleftrightarrow> e = q \<and> c' = c1" for q c1
    by (subst rx_Rep_iff) simp
  show ?thesis
    unfolding opt_def by (subst rx_Rep_iff) (auto simp: zero)
qed

lemma lit_86_last:
  assumes "lit_at True (asc ''86'') t q"
  shows "Suc (Suc q) \<le> length t \<and> t ! Suc q = 54"
proof -
  let ?s = "[56, 54] :: ustring"
  from assms have len: "q + 2 \<le> length t"
    and all: "list_all2 (chr_eq True) ?s (take (length ?s) (drop q t))"
    by (simp_all add: lit_at_def asc_def)
  have "chr_eq True (?s ! 1) (take (length ?s) (drop q t) ! 1)"
    by (rule list_all2_nthD [OF all]) simp
  moreover have "take (length ?s) (drop q t) ! 1 = t ! Suc q"
    using len by simp
  ultimately have "chr_eq True 54 (t ! Suc q)" by simp
  then have "t ! Suc q = 54" by (auto simp: chr_eq_def ci_fold_def split: if_splits)
  with len show ?thesis by simp
qed

lemma phone_match_shape:
  assumes "unicode_ok U" and "(e, c') \<in> set (rx U True t phone_pattern p c)"
  shows "e = p + 11 \<and> \<not> (0 < p \<and> is_decimal U (t ! (p - 1)))"
proof -
  from assms(2) obtain q c1 q2 c2 where
    pre: "(q, c1) \<in> set (rx U True t (opt (Cat (opt (Lit (asc ''+''))) (Lit (asc ''86'')))) p c)" and
    nb: "(q2, c2) \<in> set (rx U True t (NotBehind [Dig]) q c1)" and
    rest: "(e, c') \<in> set (rx U True t
        (Cat (Lit (asc ''1'')) (Cat (Cls [Rng (ch CHR ''3'') (ch CHR ''9'')])
           (Cat (Rep dig 9 9) (NotAhead [Dig])))) q2 c2)"
    unfolding phone_pattern_def seq.simps rx_Cat_iff by blast
  from nb have nb': "q2 = q" "\<not> (0 < q \<and> q \<le> length t \<and> is_decimal U (t ! (q - 1)))"
    by (auto simp: rx.simps(9) in_class_def split: if_splits)
  have "q = p"
  proof (rule ccontr)
    assume "q \<noteq> p"
    with pre obtain q0 c0 where "(q, c1) \<in> set (rx U True t (Lit (asc ''86'')) q0 c0)"
      by (auto simp: rx_opt_iff rx_Cat_iff)
    then have "lit_at True (asc ''86'') t q0" "q = q0 + 2"
      by (simp_all add: rx_Lit_iff asc_def)
    with lit_86_last [of t q0] have "0 < q" "q \<le> length t" "t ! (q - 1) = 54" by simp_all
    moreover have "is_decimal U 54"
      using assms(1) by (simp add: unicode_ok_def is_decimal_def ascii_digit_def)
    ultimately show False using nb'(2) by simp
  qed
  from rest obtain a ca b cb d cd where
    one: "(a, ca) \<in> set (rx U True t (Lit (asc ''1'')) q2 c2)" and
    two: "(b, cb) \<in> set (rx U True t (Cls [Rng (ch CHR ''3'') (ch CHR ''9'')]) a ca)" and
    nine: "(d, cd) \<in> set (rx U True t (Rep (Cls [Dig]) 9 9) b cb)" and
    na: "(e, c') \<in> set (rx U True t (NotAhead [Dig]) d cd)"
    unfolding rx_Cat_iff dig_def by blast
  from one have a: "a = q2 + 1" "q2 + 1 \<le> length t"
    by (simp_all add: rx_Lit_iff asc_def lit_at_def)
  from two have "b = Suc a" by (simp add: rx_Cls_iff)
  moreover from rx_Rep_Cls_sound [OF nine] have "d = b + 9" by simp
  moreover from na have "e = d" by (auto simp: rx.simps(10) split: if_splits)
  ultimately have "e = p + 11" using a(1) nb'(1) \<open>q = p\<close> by simp
  moreover have "\<not> (0 < p \<and> is_decimal U (t ! (p - 1)))"
    using nb'(2) a(2) nb'(1) \<open>q = p\<close> by auto
  ultimately show ?thesis by simp
qed

lemma phone_matches_have_no_prefix:
  assumes "unicode_ok U" and "m \<in> set (finditer U True phone_pattern tx)"
  shows "m_end m = m_start m + 11 \<and>
         \<not> (0 < m_start m \<and> is_decimal U (tx ! (m_start m - 1)))"
  using phone_match_shape [OF assms(1) finditer_rx [OF assms(2)]] .

section \<open>Slices of the text\<close>












lemma credit_card_registered:
  "map_of patterns (asc ''credit_card'')
     = Some \<lparr> pattern = credit_card_pattern, validator = validate_credit_card \<rparr>"
  by (simp add: patterns_def asc_def)

lemma validate_credit_card_positive:
  assumes "validate_credit_card U m tx = Inr conf" and "1 \<le> conf"
  shows "re_match U (seq [Bol, Rep dig 16 19, Eol])
           (remove_char (ch CHR ''-'') (remove_char (ch CHR '' '') (match_group m tx))) \<noteq> None"
  using assms by (auto simp: validate_credit_card_def Let_def split: if_splits)








lemma detect_card_4111:
  "detect_sensitive_info basic_db init_detector
       (Some (asc ''4111 1111 1111 1111'')) (Some [asc ''credit_card''])
     = Inr [asc ''credit_card'' \<mapsto>
         [\<lparr> hit_value = Some (asc ''4111 1111 1111 1111''), hit_start = 0, hit_end = 19,
            hit_context = [0x3010] @ asc ''4111 1111 1111 1111'' @ [0x3011],
            hit_confidence = 80 \<rparr>]]"
  by (simp add: rx_eval detect_eval credit_card_pattern_def validate_credit_card_def
      credit_card_keywords_def remove_char_def py_int_def luhn_double.simps)

lemma detect_card_trailing_newline_raises:
  \<comment> \<open>the rule takes the newline after the last group into the match, \<open>$\<close> lets it
      pass the format check, and \<open>int\<close> raises on it\<close>
  "detect_sensitive_info basic_db init_detector
       (Some (asc ''4111 1111 1111 1111'' @ [10])) (Some [asc ''credit_card''])
     = Inl (InvalidIntLiteral [10])"
  by (simp add: rx_eval detect_eval credit_card_pattern_def validate_credit_card_def
      credit_card_keywords_def remove_char_def py_int_def luhn_double.simps)












section \<open>The claims\<close>

text \<open>
  C1. The phone rule is meant to accept an optional country code: a text in which
  \<open>+86\<close> or \<open>86\<close> stands right before an 11-digit mobile number should yield a
  phone match. The code does not: on \<open>+8613812345678\<close>, with only the phone type
  requested and the default threshold, it reports nothing.
\<close>

theorem phone_country_code_not_matched:
  "detect_sensitive_info basic_db init_detector
       (Some (asc ''+8613812345678'')) (Some [asc ''phone'']) = Inr Map.empty \<and>
   detect_sensitive_info basic_db init_detector
       (Some (asc ''8613812345678'')) (Some [asc ''phone'']) = Inr Map.empty"
  by (simp add: rx_eval detect_eval phone_pattern_def validate_phone_def phone_keywords_def)

text \<open>
  C2 (amended). For every threshold of at least 1: a phone match whose value is the
  placeholder \<open>13800138000\<close> and whose 20-character window holds no phone keyword gets
  confidence 0 from the validator, and every phone match with that value that
  \<open>detect_sensitive_info\<close> reports has a phone keyword in its window. At threshold 0
  the match is reported, with confidence 0.
\<close>

theorem placeholder_phone_excluded:
  assumes "unicode_ok U" and "1 \<le> confidence_threshold d"
  shows "(\<forall>m. match_group m tx = asc ''13800138000'' \<and>
              \<not> (\<exists>k \<in> set phone_keywords. sublist k (get_context_text tx (m_start m) (m_end m) 20))
              \<longrightarrow> validate_phone U m tx = Inr 0) \<and>
         (\<forall>res h. detect_sensitive_info U d (Some tx) info_types = Inr res \<and>
              h \<in> set (hits_of res (asc ''phone'')) \<and> hit_value h = Some (asc ''13800138000'')
              \<longrightarrow> (\<exists>k \<in> set phone_keywords.
                     sublist k (get_context_text tx (nat (hit_start h)) (nat (hit_end h)) 20)))"
proof (intro conjI allI impI)
  fix m
  assume "match_group m tx = asc ''13800138000'' \<and>
    \<not> (\<exists>k \<in> set phone_keywords. sublist k (get_context_text tx (m_start m) (m_end m) 20))"
  then have g: "match_group m tx = asc ''13800138000''" and "\<not> in_context U phone_keywords tx m"
    by (simp_all add: in_context_iff phone_keywords_def)
  with validate_phone_placeholder [OF assms(1) g] show "validate_phone U m tx = Inr 0" by simp
next
  fix res h
  assume a: "detect_sensitive_info U d (Some tx) info_types = Inr res \<and>
    h \<in> set (hits_of res (asc ''phone'')) \<and> hit_value h = Some (asc ''13800138000'')"
  then obtain m conf where
    m: "validate_phone U m tx = Inr conf" "confidence_threshold d \<le> conf"
       "h = make_hit tx (asc ''phone'') m conf"
    using detect_provenance [of U d tx info_types res h "asc ''phone''"] phone_registered by auto
  have "asc ''phone'' \<noteq> asc ''password''" by (simp add: asc_def)
  then have h: "hit_value h = Some (match_group m tx)" "hit_start h = int (m_start m)"
    "hit_end h = int (m_end m)"
    using m(3) by (simp_all add: make_hit_whole)
  with a have g: "match_group m tx = asc ''13800138000''" by simp
  from validate_phone_placeholder [OF assms(1) g] m(1,2) assms(2)
  have "in_context U phone_keywords tx m" by (auto split: if_splits)
  then show "\<exists>k \<in> set phone_keywords.
      sublist k (get_context_text tx (nat (hit_start h)) (nat (hit_end h)) 20)"
    using h by (simp add: in_context_iff phone_keywords_def)
qed

theorem placeholder_phone_excluded_witness:
  "unicode_ok basic_db \<and> 1 \<le> confidence_threshold init_detector \<and>
   match_group \<lparr>m_start = 0, m_end = 11, m_groups = []\<rparr> (asc ''13800138000'') = asc ''13800138000'' \<and>
   \<not> (\<exists>k \<in> set phone_keywords. sublist k (get_context_text (asc ''13800138000'') 0 11 20)) \<and>
   validate_phone basic_db \<lparr>m_start = 0, m_end = 11, m_groups = []\<rparr> (asc ''13800138000'') = Inr 0 \<and>
   detect_sensitive_info basic_db init_detector (Some (asc ''13800138000'')) (Some [asc ''phone''])
     = Inr Map.empty"
proof -
  let ?m = "\<lparr>m_start = 0, m_end = 11, m_groups = []\<rparr>"
  have thr: "1 \<le> confidence_threshold init_detector" by (simp add: init_detector_def)
  have g: "match_group ?m (asc ''13800138000'') = asc ''13800138000''"
    by (simp add: match_group_def slice_def asc_def)
  have nk: "\<not> (\<exists>k \<in> set phone_keywords. sublist k (get_context_text (asc ''13800138000'') 0 11 20))"
    by (simp add: phone_keywords_def get_context_text_def slice_def asc_def sublist_code)
  from placeholder_phone_excluded [OF unicode_ok_basic_db thr, of "asc ''13800138000''"] g nk
  have "validate_phone basic_db ?m (asc ''13800138000'') = Inr 0"
    by (metis re_match.select_convs(1,2))
  with unicode_ok_basic_db thr g nk detect_placeholder_50 show ?thesis by simp
qed

theorem placeholder_phone_threshold_zero_counterexample:
  "set_confidence_threshold init_detector 0 = Inr (init_detector\<lparr>confidence_threshold := 0\<rparr>) \<and>
   validate_phone basic_db \<lparr>m_start = 0, m_end = 11, m_groups = []\<rparr> (asc ''13800138000'') = Inr 0 \<and>
   detect_sensitive_info basic_db (init_detector\<lparr>confidence_threshold := 0\<rparr>)
     (Some (asc ''13800138000'')) (Some [asc ''phone''])
   = Inr [asc ''phone'' \<mapsto>
        [\<lparr> hit_value = Some (asc ''13800138000''), hit_start = 0, hit_end = 11,
           hit_context = [0x3010] @ asc ''13800138000'' @ [0x3011], hit_confidence = 0 \<rparr>]]"
  by (simp add: rx_eval detect_eval phone_pattern_def validate_phone_def phone_keywords_def
      set_confidence_threshold_def)

text \<open>
  C3 (amended). When the requested type list holds an identifier that is not in the
  registry, \<open>set_enabled_types\<close> raises the invalid-type error for the first such
  identifier, and so does \<open>detect_sensitive_info\<close> for every text that has a character
  which is not white space. For an empty or blank text the guard on the text comes
  first and the call returns the empty mapping.
\<close>

theorem unknown_type_rejected:
  assumes "type_id \<in> set type_ids" and "map_of patterns type_id = None"
  shows "\<exists>bad. bad \<in> set type_ids \<and> map_of patterns bad = None \<and>
           set_enabled_types d type_ids = Inl (InvalidTypeId bad) \<and>
           ((\<exists>c \<in> set tx. \<not> is_space U c) \<longrightarrow>
              detect_sensitive_info U d (Some tx) (Some type_ids) = Inl (InvalidTypeId bad))"
proof -
  from find_unregistered [OF assms] obtain bad where
    bad: "find (\<lambda>type_id. map_of patterns type_id = None) type_ids = Some bad"
      "bad \<in> set type_ids" "map_of patterns bad = None" by blast
  have "strip U tx \<noteq> []" if "\<exists>c \<in> set tx. \<not> is_space U c"
    using that strip_empty_iff [of U tx] by (auto simp: list_all_iff)
  with bad show ?thesis
    by (intro exI [of _ bad]) (simp add: set_enabled_types_def detect_sensitive_info_def)
qed

theorem unknown_type_rejected_witness:
  "asc ''ssn'' \<in> set [asc ''phone'', asc ''ssn''] \<and> map_of patterns (asc ''ssn'') = None \<and>
   (\<exists>c \<in> set (asc ''abc''). \<not> is_space basic_db c) \<and>
   set_enabled_types init_detector [asc ''phone'', asc ''ssn''] = Inl (InvalidTypeId (asc ''ssn'')) \<and>
   detect_sensitive_info basic_db init_detector (Some (asc ''abc'')) (Some [asc ''phone'', asc ''ssn''])
     = Inl (InvalidTypeId (asc ''ssn''))"
proof -
  have mem: "asc ''ssn'' \<in> set [asc ''phone'', asc ''ssn'']" by simp
  have nonblank: "\<exists>c \<in> set (asc ''abc''). \<not> is_space basic_db c"
    by (simp add: asc_def basic_db_def)
  have phone: "map_of patterns (asc ''phone'') \<noteq> None"
    by (simp add: patterns_def asc_def)
  from unknown_type_rejected [OF mem ssn_unregistered, of init_detector "asc ''abc''" basic_db]
  obtain bad where bad: "bad \<in> set [asc ''phone'', asc ''ssn'']" "map_of patterns bad = None"
    "set_enabled_types init_detector [asc ''phone'', asc ''ssn''] = Inl (InvalidTypeId bad)"
    "(\<exists>c \<in> set (asc ''abc''). \<not> is_space basic_db c) \<longrightarrow>
       detect_sensitive_info basic_db init_detector (Some (asc ''abc''))
         (Some [asc ''phone'', asc ''ssn'']) = Inl (InvalidTypeId bad)"
    by blast
  from bad(1,2) phone have "bad = asc ''ssn''" by auto
  with bad nonblank mem ssn_unregistered show ?thesis by simp
qed

theorem unknown_type_blank_text_counterexample:
  "map_of patterns (asc ''ssn'') = None \<and>
   detect_sensitive_info basic_db init_detector (Some []) (Some [asc ''ssn'']) = Inr Map.empty"
  by (simp add: ssn_unregistered detect_sensitive_info_def strip_def)

text \<open>
  C4. Every match in the mapping that \<open>detect_sensitive_info\<close> returns has a confidence
  that is at least the detector's confidence threshold at the time of the call, for
  every text, every detector configuration and every requested type list.
\<close>

theorem reported_confidence_ge_threshold:
  "detect_sensitive_info U d tx info_types = Inr res \<Longrightarrow>
   h \<in> set (hits_of res type_id) \<Longrightarrow> confidence_threshold d \<le> hit_confidence h"
  using detect_cases [of U d tx info_types res]
    detect_types_confidence [of U "confidence_threshold d" _ _ Map.empty res h type_id]
  by (auto simp: hits_of_def)

theorem reported_confidence_ge_threshold_witness:
  "\<exists>res h. detect_sensitive_info basic_db (init_detector\<lparr>confidence_threshold := 50\<rparr>)
              (Some (asc ''13812345678'')) (Some [asc ''phone'']) = Inr res \<and>
           h \<in> set (hits_of res (asc ''phone'')) \<and> hit_confidence h = 80 \<and>
           confidence_threshold (init_detector\<lparr>confidence_threshold := 50\<rparr>) \<le> hit_confidence h"
proof -
  let ?h = "\<lparr> hit_value = Some (asc ''13812345678''), hit_start = 0, hit_end = 11,
              hit_context = [0x3010] @ asc ''13812345678'' @ [0x3011], hit_confidence = 80 \<rparr>"
  let ?res = "[asc ''phone'' \<mapsto> [?h]]"
  have mem: "?h \<in> set (hits_of ?res (asc ''phone''))"
    by (simp add: hits_of_def)
  from reported_confidence_ge_threshold [OF detect_plain_phone mem] detect_plain_phone mem
  show ?thesis by (intro exI [of _ ?res] exI [of _ ?h]) simp
qed

text \<open>
  C5. Threshold monotonicity: for a fixed text and a fixed list of requested types,
  and thresholds \<open>t1 \<le> t2\<close>, either both calls raise the same error, or both return a
  mapping and no type has more matches at \<open>t2\<close> than at \<open>t1\<close>. (The bounds 0 and 100
  on the thresholds are not needed.)
\<close>

theorem threshold_monotone:
  assumes "t1 \<le> t2"
  shows "(\<exists>e. detect_sensitive_info U (d\<lparr>confidence_threshold := t1\<rparr>) text info_types = Inl e \<and>
              detect_sensitive_info U (d\<lparr>confidence_threshold := t2\<rparr>) text info_types = Inl e) \<or>
         (\<exists>r1 r2. detect_sensitive_info U (d\<lparr>confidence_threshold := t1\<rparr>) text info_types = Inr r1 \<and>
              detect_sensitive_info U (d\<lparr>confidence_threshold := t2\<rparr>) text info_types = Inr r2 \<and>
              (\<forall>type_id. length (hits_of r2 type_id) \<le> length (hits_of r1 type_id)))"
proof -
  have base: "\<forall>k. length (hits_of (Map.empty :: results) k) \<le> length (hits_of (Map.empty :: results) k)"
    by simp
  note mono = detect_types_mono [OF assms base]
  show ?thesis
  proof (cases "text")
    case None
    then show ?thesis by (simp add: detect_sensitive_info_def)
  next
    case (Some t)
    show ?thesis
    proof (cases "strip U t = []")
      case True
      with Some show ?thesis by (simp add: detect_sensitive_info_def)
    next
      case False
      show ?thesis
      proof (cases info_types)
        case None
        with Some False mono [of U t "enabled_types d"] show ?thesis
          by (simp add: detect_sensitive_info_def)
      next
        case (Some ts)
        show ?thesis
        proof (cases "find (\<lambda>type_id. map_of patterns type_id = None) ts")
          case None
          with \<open>text = Some t\<close> Some False mono [of U t ts] show ?thesis
            by (simp add: detect_sensitive_info_def)
        next
          case (Some bad)
          with \<open>text = Some t\<close> \<open>info_types = Some ts\<close> False show ?thesis
            by (simp add: detect_sensitive_info_def)
        qed
      qed
    qed
  qed
qed

theorem threshold_monotone_witness:
  "(50::int) \<le> 90 \<and>
   (\<exists>r1 r2.
      detect_sensitive_info basic_db (init_detector\<lparr>confidence_threshold := 50\<rparr>)
        (Some (asc ''13812345678'')) (Some [asc ''phone'']) = Inr r1 \<and>
      detect_sensitive_info basic_db (init_detector\<lparr>confidence_threshold := 90\<rparr>)
        (Some (asc ''13812345678'')) (Some [asc ''phone'']) = Inr r2 \<and>
      length (hits_of r1 (asc ''phone'')) = 1 \<and> length (hits_of r2 (asc ''phone'')) = 0 \<and>
      (\<forall>type_id. length (hits_of r2 type_id) \<le> length (hits_of r1 type_id)))"
  using threshold_monotone [of 50 90 basic_db init_detector "Some (asc ''13812345678'')"
      "Some [asc ''phone'']"]
  by (simp add: detect_plain_phone detect_plain_phone_90 hits_of_def)






text \<open>
  C8. Empty input short-circuit: for every configuration and every requested type list
  (registered or not), \<open>detect_sensitive_info\<close> called with the empty string, or with a
  string made of white space only, returns the empty mapping and raises nothing.
\<close>

theorem detect_blank_text_empty:
  "detect_sensitive_info U d (Some []) info_types = Inr Map.empty \<and>
   (list_all (is_space U) tx \<longrightarrow>
      detect_sensitive_info U d (Some tx) info_types = Inr Map.empty)"
  using strip_empty_iff [of U tx] by (simp add: detect_sensitive_info_def strip_def)

theorem detect_blank_text_empty_witness:
  "list_all (is_space basic_db) (asc ''   '') \<and>
   detect_sensitive_info basic_db init_detector (Some (asc ''   '')) (Some [asc ''ssn''])
     = Inr Map.empty"
proof -
  have blank: "list_all (is_space basic_db) (asc ''   '')"
    by (simp add: asc_def basic_db_def)
  with detect_blank_text_empty [of basic_db init_detector "Some [asc ''ssn'']" "asc ''   ''"]
  show ?thesis by simp
qed

text \<open>
  C9. For every text and every configuration with a threshold of at least 1, the value
  of every match reported under \<open>credit_card\<close>, once spaces and hyphens are removed, is
  a run of 16 to 19 decimal digits, possibly followed by one newline (which \<open>$\<close> lets
  pass); so it has between 16 and 19 digits.
\<close>

theorem credit_card_hits_digit_count:
  assumes "unicode_ok U" and "1 \<le> confidence_threshold d"
    and "detect_sensitive_info U d (Some tx) info_types = Inr res"
    and "h \<in> set (hits_of res (asc ''credit_card''))"
  shows "\<exists>v ds. hit_value h = Some v \<and>
           (remove_char (ch CHR ''-'') (remove_char (ch CHR '' '') v) = ds \<or>
            remove_char (ch CHR ''-'') (remove_char (ch CHR '' '') v) = ds @ [10]) \<and>
           list_all (is_decimal U) ds \<and> 16 \<le> length ds \<and> length ds \<le> 19 \<and>
           length (filter (is_decimal U) (remove_char (ch CHR ''-'') (remove_char (ch CHR '' '') v)))
             = length ds"
proof -
  from detect_provenance [OF assms(3,4)] credit_card_registered obtain m conf where
    m: "validate_credit_card U m tx = Inr conf" "confidence_threshold d \<le> conf"
       "h = make_hit tx (asc ''credit_card'') m conf"
    by auto
  have "asc ''credit_card'' \<noteq> asc ''password''" by (simp add: asc_def)
  with m(3) have v: "hit_value h = Some (match_group m tx)" by (simp add: make_hit_whole)
  let ?card = "remove_char (ch CHR ''-'') (remove_char (ch CHR '' '') (match_group m tx))"
  from m(1,2) assms(2) have "re_match U (seq [Bol, Rep dig 16 19, Eol]) ?card \<noteq> None"
    by (intro validate_credit_card_positive [of U m tx conf]) simp_all
  from re_match_digit_run [OF this] obtain ds where
    ds: "?card = ds \<or> ?card = ds @ [10]" "list_all (is_decimal U) ds"
        "16 \<le> length ds" "length ds \<le> 19"
    by blast
  have nl: "\<not> is_decimal U 10" using assms(1) by (simp add: unicode_ok_def)
  have "filter (is_decimal U) ds = ds" using ds(2) by (simp add: list_all_iff)
  with ds(1) nl have "length (filter (is_decimal U) ?card) = length ds" by auto
  with v ds show ?thesis by blast
qed

theorem credit_card_hits_digit_count_witness:
  "unicode_ok basic_db \<and> 1 \<le> confidence_threshold init_detector \<and>
   (\<exists>res h. detect_sensitive_info basic_db init_detector
                (Some (asc ''4111 1111 1111 1111'')) (Some [asc ''credit_card'']) = Inr res \<and>
      h \<in> set (hits_of res (asc ''credit_card'')) \<and>
      (\<exists>v ds. hit_value h = Some v \<and>
           (remove_char (ch CHR ''-'') (remove_char (ch CHR '' '') v) = ds \<or>
            remove_char (ch CHR ''-'') (remove_char (ch CHR '' '') v) = ds @ [10]) \<and>
           list_all (is_decimal basic_db) ds \<and> 16 \<le> length ds \<and> length ds \<le> 19 \<and>
           length (filter (is_decimal basic_db)
                     (remove_char (ch CHR ''-'') (remove_char (ch CHR '' '') v)))
             = length ds))"
proof -
  let ?h = "\<lparr> hit_value = Some (asc ''4111 1111 1111 1111''), hit_start = 0, hit_end = 19,
              hit_context = [0x3010] @ asc ''4111 1111 1111 1111'' @ [0x3011],
              hit_confidence = 80 \<rparr>"
  let ?res = "[asc ''credit_card'' \<mapsto> [?h]]"
  have thr: "1 \<le> confidence_threshold init_detector" by (simp add: init_detector_def)
  have mem: "?h \<in> set (hits_of ?res (asc ''credit_card''))" by (simp add: hits_of_def)
  from credit_card_hits_digit_count [OF unicode_ok_basic_db thr detect_card_4111 mem]
    unicode_ok_basic_db thr detect_card_4111 mem
  show ?thesis by blast
qed

text \<open>
  C10. For every configuration and every requested type list, \<open>detect_sensitive_info\<close>
  called with a missing text (\<open>None\<close>) returns the empty mapping and raises nothing,
  as it does for an empty or blank text.
\<close>

theorem detect_none_text_empty:
  "detect_sensitive_info U d None info_types = Inr Map.empty"
  by (simp add: detect_sensitive_info_def)

end
